theory Spec2Isabelle
  imports Main "HOL-Library.Word" "HOL-Library.Multiset"
begin

section \<open>Data model of reduce.cpp\<close>

text \<open>
  The C++ types are kept with their widths: \<open>int\<close> and \<open>uint32_t\<close> are \<open>32 word\<close>
  (read with \<open>sint\<close> where the source's type is signed, compared with the unsigned
  order of words where it is \<open>uint32_t\<close>), \<open>uint64_t\<close> is \<open>64 word\<close>. Arithmetic
  wraps around. An access outside an array or vector is undefined behaviour in C++ and
  is the value \<open>Inl OutOfBounds\<close> here. A computation that never returns is \<open>None\<close>.
\<close>

definition rows :: nat where
  "rows = 1000"

definition cols :: nat where
  "cols = 100"

text \<open>\<open>int work[rows][cols]\<close>: the entry in row \<open>r\<close> and column \<open>c\<close>, a signed 32-bit value.\<close>

type_synonym matrix = "nat \<Rightarrow> nat \<Rightarrow> 32 word"

datatype error = OutOfBounds

text \<open>
  The global vectors \<open>tcount\<close> and \<open>sum\<close>. The field \<open>seen\<close> is not program state: it
  records, per thread, the row indices whose elements the thread has added, in order (the
  tagging of rows with their worker that the coverage property speaks about).
\<close>

record workers =
  tcount :: "32 word list"
  sum_vec :: "64 word list"
  seen :: "nat \<Rightarrow> nat list"

text \<open>\<open>tid\<close> is an \<open>int\<close>; it indexes a vector only if it is non-negative and below the size.\<close>

definition vec_index :: "32 word \<Rightarrow> 'a list \<Rightarrow> bool" where
  "vec_index tid v \<longleftrightarrow> 0 \<le> sint tid \<and> nat (sint tid) < length v"

definition valid_tid :: "32 word \<Rightarrow> 'a workers_scheme \<Rightarrow> bool" where
  "valid_tid tid st \<longleftrightarrow> vec_index tid (tcount st) \<and> vec_index tid (sum_vec st)"

text \<open>
  \<open>for (int i = 0; i < cols; i++) sum[tid] += work[row][i];\<close> on the accumulator: the
  \<open>int\<close> entry is converted to \<open>uint64_t\<close> (sign extension) and added modulo \<open>2^64\<close>.
\<close>

definition add_row :: "matrix \<Rightarrow> nat \<Rightarrow> 64 word \<Rightarrow> 64 word" where
  "add_row work row acc = fold (\<lambda>i a. a + scast (work row i)) [0..<cols] acc"

text \<open>
  The work one thread does for one row: the column loop on \<open>sum[tid]\<close> and
  \<open>++tcount[tid]\<close> (the two statements come in either order in the two strategies and
  write different vectors).
\<close>

definition process_row :: "matrix \<Rightarrow> nat \<Rightarrow> nat \<Rightarrow> 'a workers_scheme \<Rightarrow> 'a workers_scheme" where
  "process_row work t row st =
     st\<lparr>tcount := (tcount st)[t := tcount st ! t + 1],
        sum_vec := (sum_vec st)[t := add_row work row (sum_vec st ! t)],
        seen := (seen st)(t := seen st t @ [row])\<rparr>"

section \<open>Static strategy: \<open>sum_static\<close>\<close>

text \<open>
  One pass through the body of \<open>while (!done)\<close> with the local variable \<open>row\<close>:
  \<open>None\<close> for the new row means \<open>done = true\<close>. Every path of the function reads
  \<open>sum[tid]\<close> and \<open>tcount[tid]\<close> (in the loop or in the final output line).
\<close>

definition static_iter ::
  "matrix \<Rightarrow> 32 word \<Rightarrow> 32 word \<Rightarrow> 32 word \<Rightarrow> 'a workers_scheme
    \<Rightarrow> error + (32 word option \<times> 'a workers_scheme)" where
  "static_iter work tid num_threads row st =
     (if \<not> valid_tid tid st then Inl OutOfBounds
      else if int rows \<le> sint row then Inr (None, st)
      else if sint row < 0 then Inl OutOfBounds
      else Inr (Some (row + num_threads),
                process_row work (nat (sint tid)) (nat (sint row)) st))"

partial_function (option) static_loop ::
  "matrix \<Rightarrow> 32 word \<Rightarrow> 32 word \<Rightarrow> 32 word \<Rightarrow> workers \<Rightarrow> (error + workers) option" where
  "static_loop work tid num_threads row st =
     (case static_iter work tid num_threads row st of
        Inl e \<Rightarrow> Some (Inl e)
      | Inr (None, st') \<Rightarrow> Some (Inr st')
      | Inr (Some row', st') \<Rightarrow> static_loop work tid num_threads row' st')"

definition sum_static :: "matrix \<Rightarrow> 32 word \<Rightarrow> 32 word \<Rightarrow> workers \<Rightarrow> (error + workers) option" where
  "sum_static work tid num_threads st = static_loop work tid num_threads tid st"

section \<open>Dynamic strategy: \<open>sum_dynamic\<close>\<close>

text \<open>
  The critical section between \<open>counter_lock.lock()\<close> and \<open>counter_lock.unlock()\<close>,
  on the shared \<open>counter\<close>: the new counter, the flag \<open>done\<close> and \<open>count_copy\<close>.
\<close>

definition claim :: "32 word \<Rightarrow> 32 word \<times> bool \<times> 32 word" where
  "claim counter =
     (let (counter', done) = (if 0 < sint counter then (counter - 1, False) else (counter, True));
          count_copy = counter'
      in (counter', done, count_copy))"

text \<open>
  Where a thread running \<open>sum_dynamic\<close> stands: about to enter the critical section,
  between the critical section and the work on the row \<open>count_copy\<close>, or returned.
\<close>

datatype pc = Claiming | Holding "32 word" | Finished

text \<open>
  The state shared by the threads of a dynamic run. \<open>claims\<close> is not program state: it
  lists the values of \<open>count_copy\<close> of the successful claims in the order they happened.
\<close>

record dyn_state = workers +
  counter :: "32 word"
  pcs :: "pc list"
  claims :: "32 word list"

text \<open>
  One step of thread \<open>t\<close> (started as \<open>sum_dynamic(t)\<close>): the critical section as one
  step, since the lock excludes every other thread from it, or the work on the claimed
  row, which writes only \<open>tcount[tid]\<close> and \<open>sum[tid]\<close>.
\<close>

definition sum_dynamic_step :: "matrix \<Rightarrow> nat \<Rightarrow> dyn_state \<Rightarrow> error + dyn_state" where
  "sum_dynamic_step work t s =
     (let tid = (word_of_nat t :: 32 word) in
      case pcs s ! t of
        Claiming \<Rightarrow>
          (let (counter', done, count_copy) = claim (counter s) in
           if done then
             (if valid_tid tid s then Inr (s\<lparr>counter := counter', pcs := (pcs s)[t := Finished]\<rparr>)
              else Inl OutOfBounds)
           else Inr (s\<lparr>counter := counter', pcs := (pcs s)[t := Holding count_copy],
                       claims := claims s @ [count_copy]\<rparr>))
      | Holding count_copy \<Rightarrow>
          (if valid_tid tid s \<and> 0 \<le> sint count_copy \<and> sint count_copy < int rows
           then Inr ((process_row work (nat (sint tid)) (nat (sint count_copy)) s)
                       \<lparr>pcs := (pcs s)[t := Claiming]\<rparr>)
           else Inl OutOfBounds)
      | Finished \<Rightarrow> Inr s)"

section \<open>Threads\<close>

text \<open>
  The threads of one run, from their creation to the last \<open>join\<close>. \<open>runnable\<close> lists the
  threads that have not returned; \<open>sched\<close> is the scheduler: at its \<open>k\<close>-th decision it
  lets the runnable thread number \<open>sched k mod length (runnable s)\<close> take one step. Every
  interleaving of the threads' steps is the run of some \<open>sched\<close>.
\<close>

partial_function (option) run_threads ::
  "('s \<Rightarrow> nat list) \<Rightarrow> (nat \<Rightarrow> 's \<Rightarrow> error + 's) \<Rightarrow> (nat \<Rightarrow> nat) \<Rightarrow> nat \<Rightarrow> 's
    \<Rightarrow> (error + 's) option" where
  "run_threads runnable step sched k s =
     (if runnable s = [] then Some (Inr s)
      else (case step (runnable s ! (sched k mod length (runnable s))) s of
              Inl e \<Rightarrow> Some (Inl e)
            | Inr s' \<Rightarrow> run_threads runnable step sched (Suc k) s'))"

declare static_loop.simps [code]

declare run_threads.simps [code]

text \<open>The threads of a static run: each has its local \<open>row\<close>, or has returned (\<open>None\<close>).\<close>

record static_state = workers +
  local_row :: "32 word option list"

definition static_runnable :: "static_state \<Rightarrow> nat list" where
  "static_runnable s = filter (\<lambda>t. local_row s ! t \<noteq> None) [0..<length (local_row s)]"

definition sum_static_step :: "matrix \<Rightarrow> 32 word \<Rightarrow> nat \<Rightarrow> static_state \<Rightarrow> error + static_state" where
  "sum_static_step work num_threads t s =
     (case local_row s ! t of
        None \<Rightarrow> Inr s
      | Some row \<Rightarrow>
          (case static_iter work (word_of_nat t) num_threads row s of
             Inl e \<Rightarrow> Inl e
           | Inr (row', s') \<Rightarrow> Inr (s'\<lparr>local_row := (local_row s')[t := row']\<rparr>)))"

definition dyn_runnable :: "dyn_state \<Rightarrow> nat list" where
  "dyn_runnable s = filter (\<lambda>t. pcs s ! t \<noteq> Finished) [0..<length (pcs s)]"

section \<open>\<open>main\<close>\<close>

text \<open>
  What \<open>getopt(argc, argv, "dt:")\<close> returns, call after call, until \<open>-1\<close>: \<open>'d'\<close>, \<open>'t'\<close>
  with the \<open>int\<close> that \<open>atoi(optarg)\<close> gives, or anything else (\<open>'?'\<close>, for an
  unrecognized option and for \<open>-t\<close> without its argument).
\<close>

datatype opt = Opt_d | Opt_t "32 word" | Opt_other

text \<open>
  The option loop on \<open>dFlag\<close> and \<open>limiter\<close>; \<open>None\<close> is the call of \<open>usage()\<close>, which
  ends the process with \<open>exit(1)\<close>. The assignment \<open>limiter = atoi(optarg)\<close> converts the
  \<open>int\<close> to \<open>uint32_t\<close>, which keeps the 32 bits; both comparisons are unsigned.
\<close>

fun getopt_loop :: "32 word \<Rightarrow> opt list \<Rightarrow> bool \<Rightarrow> 32 word \<Rightarrow> (bool \<times> 32 word) option" where
  "getopt_loop maxThreads [] dFlag limiter = Some (dFlag, limiter)"
| "getopt_loop maxThreads (Opt_d # os) dFlag limiter = getopt_loop maxThreads os True limiter"
| "getopt_loop maxThreads (Opt_t atoi_optarg # os) dFlag limiter =
     getopt_loop maxThreads os dFlag
       (if atoi_optarg < 2 then 2
        else if atoi_optarg > maxThreads then maxThreads
        else atoi_optarg)"
| "getopt_loop maxThreads (Opt_other # os) dFlag limiter = None"

text \<open>
  The loop \<open>for (uint32_t i = 0; i < limiter; ++i)\<close> after the threads were started: the
  joins, and the sums into \<open>total_work\<close> and \<open>gross_sum\<close> (both zero at the start).
  \<open>at(i)\<close> is checked against the size of the vector.
\<close>

definition aggregate :: "nat \<Rightarrow> 'a workers_scheme \<Rightarrow> error + (32 word \<times> 64 word)" where
  "aggregate limiter st =
     (if limiter \<le> length (tcount st) \<and> limiter \<le> length (sum_vec st)
      then Inr (fold (\<lambda>i (total_work, gross_sum). (total_work + tcount st ! i, gross_sum + sum_vec st ! i))
                  [0..<limiter] (0, 0))
      else Inl OutOfBounds)"

text \<open>How the process ends: \<open>exit(1)\<close> in \<open>usage()\<close>, or \<open>return 0\<close> after the last output
  line, which shows \<open>total_work\<close> and \<open>gross_sum\<close>.\<close>

datatype outcome = Usage_exit | Completed "32 word" "64 word"

fun exit_code :: "outcome \<Rightarrow> nat" where
  "exit_code Usage_exit = 1"
| "exit_code (Completed total_work gross_sum) = 0"

text \<open>The state when the threads are created: \<open>tcount.resize(limiter, 0)\<close>,
  \<open>sum.resize(limiter, 0)\<close>, \<open>counter = rows\<close>, thread \<open>i\<close> started with \<open>tid = i\<close>.\<close>

definition static_init :: "nat \<Rightarrow> static_state" where
  "static_init limiter =
     \<lparr>tcount = replicate limiter 0, sum_vec = replicate limiter 0, seen = (\<lambda>t. []),
      local_row = map (\<lambda>i. Some (word_of_nat i)) [0..<limiter]\<rparr>"

definition dyn_init :: "nat \<Rightarrow> dyn_state" where
  "dyn_init limiter =
     \<lparr>tcount = replicate limiter 0, sum_vec = replicate limiter 0, seen = (\<lambda>t. []),
      counter = word_of_nat rows, pcs = replicate limiter Claiming, claims = []\<rparr>"

text \<open>
  The threads from their creation to the last \<open>join\<close>: \<open>sum_static(i, limiter)\<close> or
  \<open>sum_dynamic(i)\<close> for every \<open>i < limiter\<close>, under the scheduler \<open>sched\<close>.
\<close>

definition run_static :: "matrix \<Rightarrow> nat \<Rightarrow> (nat \<Rightarrow> nat) \<Rightarrow> (error + static_state) option" where
  "run_static work limiter sched =
     run_threads static_runnable (sum_static_step work (word_of_nat limiter)) sched 0
       (static_init limiter)"

definition run_dynamic :: "matrix \<Rightarrow> nat \<Rightarrow> (nat \<Rightarrow> nat) \<Rightarrow> (error + dyn_state) option" where
  "run_dynamic work limiter sched =
     run_threads dyn_runnable (sum_dynamic_step work) sched 0 (dyn_init limiter)"

text \<open>
  The rest of \<open>main\<close> after the threads: the totals are summed, shown, and \<open>main\<close>
  returns 0. A thread's entries are read after its \<open>join\<close>, and no other thread writes
  them, so the sums are those of the state in which every thread has returned.
\<close>

definition finish :: "nat \<Rightarrow> (error + 'a workers_scheme) option \<Rightarrow> (error + outcome) option" where
  "finish limiter r =
     (case r of
        None \<Rightarrow> None
      | Some (Inl e) \<Rightarrow> Some (Inl e)
      | Some (Inr st) \<Rightarrow>
          (case aggregate limiter st of
             Inl e \<Rightarrow> Some (Inl e)
           | Inr (total_work, gross_sum) \<Rightarrow> Some (Inr (Completed total_work gross_sum))))"

text \<open>
  \<open>main\<close>, given the hardware concurrency \<open>maxThreads\<close>, the options as \<open>getopt\<close> reads
  them, the matrix as \<open>rand()\<close> has filled it, and the scheduler.
\<close>

definition main :: "32 word \<Rightarrow> opt list \<Rightarrow> matrix \<Rightarrow> (nat \<Rightarrow> nat) \<Rightarrow> (error + outcome) option" where
  "main maxThreads opts work sched =
     (case getopt_loop maxThreads opts False 2 of
        None \<Rightarrow> Some (Inr Usage_exit)
      | Some (dFlag, limiter) \<Rightarrow>
          (if dFlag then finish (unat limiter) (run_dynamic work (unat limiter) sched)
           else finish (unat limiter) (run_static work (unat limiter) sched)))"

section \<open>Sums of the matrix\<close>

text \<open>The sum of row \<open>r\<close> as the threads accumulate it, in \<open>uint64_t\<close>.\<close>

definition row_total :: "matrix \<Rightarrow> nat \<Rightarrow> 64 word" where
  "row_total work r = (\<Sum>c<cols. scast (work r c))"

text \<open>The sum of all \<open>rows * cols\<close> elements of the matrix, as an integer.\<close>

definition matrix_total :: "matrix \<Rightarrow> int" where
  "matrix_total work = (\<Sum>r<rows. \<Sum>c<cols. sint (work r c))"

section \<open>Invariants of the runs\<close>

text \<open>
  The vectors agree with the rows seen: \<open>tcount[t]\<close> counts them, \<open>sum[t]\<close> is the
  sum of their elements.
\<close>

definition consistent :: "matrix \<Rightarrow> nat \<Rightarrow> 'a workers_scheme \<Rightarrow> bool" where
  "consistent work N st \<longleftrightarrow>
     length (tcount st) = N \<and> length (sum_vec st) = N \<and>
     (\<forall>t<N. tcount st ! t = of_nat (length (seen st t)) \<and>
            sum_vec st ! t = sum_list (map (row_total work) (seen st t)))"

text \<open>The row a thread has claimed and not yet processed.\<close>

fun held :: "pc \<Rightarrow> nat multiset" where
  "held (Holding c) = {#unat c#}"
| "held Claiming = {#}"
| "held Finished = {#}"

text \<open>
  In a dynamic run with \<open>N\<close> threads the counter \<open>c\<close> stays within \<open>0..rows\<close>; the rows
  seen and the rows held are together the rows \<open>c..rows-1\<close>, each once; the claims so far
  are \<open>rows-1\<close> down to \<open>c\<close>; and a thread has returned only if the counter is 0.
\<close>

definition dyn_inv :: "matrix \<Rightarrow> nat \<Rightarrow> dyn_state \<Rightarrow> bool" where
  "dyn_inv work N s \<longleftrightarrow>
     length (pcs s) = N \<and> consistent work N s \<and>
     (\<exists>c\<le>rows. counter s = of_nat c \<and>
        (\<Sum>t<N. mset (seen s t)) + (\<Sum>t<N. held (pcs s ! t)) = mset [c..<rows] \<and>
        claims s = map of_nat (rev [c..<rows]) \<and>
        ((\<exists>t<N. pcs s ! t = Finished) \<longrightarrow> c = 0))"

text \<open>The number of steps a dynamic run still has to take: every step lowers it by one.\<close>

fun pc_weight :: "pc \<Rightarrow> nat" where
  "pc_weight Claiming = 1"
| "pc_weight (Holding c) = 2"
| "pc_weight Finished = 0"

definition dyn_measure :: "dyn_state \<Rightarrow> nat" where
  "dyn_measure s = 2 * unat (counter s) + (\<Sum>t<length (pcs s). pc_weight (pcs s ! t))"

text \<open>
  In a static run, thread \<open>t\<close> of \<open>N\<close> with local row \<open>r\<close> has seen the rows congruent
  to \<open>t\<close> below \<open>r\<close>, and will see those from \<open>r\<close> on; a thread that has returned has
  seen all of them.
\<close>

definition static_thread_ok :: "nat \<Rightarrow> nat \<Rightarrow> 32 word option \<Rightarrow> nat list \<Rightarrow> bool" where
  "static_thread_ok N t lr sn \<longleftrightarrow>
     (case lr of
        None \<Rightarrow> sn = filter (\<lambda>x. x mod N = t) [0..<rows]
      | Some row \<Rightarrow>
          (\<exists>r. row = of_nat r \<and> r mod N = t \<and> r < rows + N \<and>
               sn @ filter (\<lambda>x. x mod N = t) [r..<rows] = filter (\<lambda>x. x mod N = t) [0..<rows]))"

definition static_inv :: "matrix \<Rightarrow> nat \<Rightarrow> static_state \<Rightarrow> bool" where
  "static_inv work N s \<longleftrightarrow>
     length (local_row s) = N \<and> consistent work N s \<and>
     (\<forall>t<N. static_thread_ok N t (local_row s ! t) (seen s t))"

fun row_weight :: "nat \<Rightarrow> 32 word option \<Rightarrow> nat" where
  "row_weight b None = 0"
| "row_weight b (Some row) = Suc (b - unat row)"

definition static_measure :: "static_state \<Rightarrow> nat" where
  "static_measure s =
     (\<Sum>t<length (local_row s). row_weight (rows + length (local_row s)) (local_row s ! t))"

section \<open>32-bit arithmetic\<close>

lemma int_mod_window:
  fixes y m :: int
  assumes "0 < m" "- m \<le> y" "y < 2 * m"
  shows "y mod m = (if y < 0 then y + m else if y < m then y else y - m)"
proof -
  have a: "y < 0 \<Longrightarrow> y mod m = y + m"
  proof -
    assume "y < 0"
    then have "(y + m) mod m = y + m" using assms by (intro mod_pos_pos_trivial) auto
    then show ?thesis by simp
  qed
  have b: "0 \<le> y \<Longrightarrow> y < m \<Longrightarrow> y mod m = y" by simp
  have c: "m \<le> y \<Longrightarrow> y mod m = y - m"
  proof -
    assume "m \<le> y"
    then have "(y - m) mod m = y - m" using assms by (intro mod_pos_pos_trivial) auto
    then show ?thesis by simp
  qed
  show ?thesis using a b c by auto
qed

lemma stb31:
  fixes x :: int
  assumes "- (2^32) \<le> x" "x < 2^32"
  shows "signed_take_bit 31 x = (if x < - (2^31) then x + 2^32 else if 2^31 \<le> x then x - 2^32 else x)"
proof -
  have "signed_take_bit 31 x = (x + 2^31) mod 2^32 - 2^31"
    by (simp add: signed_take_bit_eq_take_bit_shift take_bit_eq_mod)
  also have "(x + 2^31) mod 2^32 = (if x + 2^31 < 0 then x + 2^31 + 2^32 else if x + 2^31 < 2^32 then x + 2^31 else x + 2^31 - 2^32)"
    using assms by (intro int_mod_window) auto
  finally show ?thesis by auto
qed

lemma stb31_nonneg:
  fixes x :: int
  assumes "0 \<le> x" "x < 2^32"
  shows "signed_take_bit 31 x = (if x < 2^31 then x else x - 2^32)"
  using assms stb31[of x] by auto

lemma sint32_uint: "sint (w::32 word) = (if uint w < 2^31 then uint w else uint w - 2^32)"
proof -
  have "uint w < 2^32" using uint_lt2p[of w] by simp
  then show ?thesis unfolding sint_uint by (simp add: stb31_nonneg[OF uint_ge_0])
qed

lemma sint32_range: "- (2^31) \<le> sint (w::32 word)" "sint w < 2^31"
  using sint_ge[of w] sint_lt[of w] by auto

lemma sint32_add: "sint (a + b :: 32 word) = 
   (if sint a + sint b < - (2^31) then sint a + sint b + 2^32 else if 2^31 \<le> sint a + sint b then sint a + sint b - 2^32 else sint a + sint b)"
proof -
  have "- (2^32) \<le> sint a + sint b" "sint a + sint b < 2^32"
    using sint32_range[of a] sint32_range[of b] by auto
  then have "signed_take_bit 31 (sint a + sint b) = (if sint a + sint b < - (2^31) then sint a + sint b + 2^32 else if 2^31 \<le> sint a + sint b then sint a + sint b - 2^32 else sint a + sint b)"
    by (rule stb31)
  then show ?thesis by (simp add: sint_word_ariths)
qed

lemma sint32_dec: "0 < sint (c::32 word) \<Longrightarrow> sint (c - 1) = sint c - 1"
proof -
  assume "0 < sint c"
  moreover have "sint c < 2^31" by (rule sint32_range)
  ultimately have "- (2^32) \<le> sint c - 1" "sint c - 1 < 2^32" "\<not> sint c - 1 < - (2^31)" "\<not> 2^31 \<le> sint c - 1" 
    by simp_all
  then have "signed_take_bit 31 (sint c - 1) = sint c - 1"
    using stb31[of "sint c - 1"] by presburger
  then show ?thesis by (simp add: sint_word_ariths)
qed

lemma sint32_of_nat: "n < 2^31 \<Longrightarrow> sint (word_of_nat n :: 32 word) = int n"
  by (simp add: signed_of_nat signed_take_bit_int_eq_self)

lemma sint32_neg_unat: "sint (v::32 word) < 0 \<Longrightarrow> int (unat v) = 2^32 + sint v \<and> 2^31 \<le> unat v"
proof -
  assume n: "sint v < 0"
  have u: "0 \<le> uint v" by simp
  have "\<not> uint v < 2^31" using n u sint32_uint[of v] by (auto split: if_splits)
  then have "sint v = uint v - 2^32" "2^31 \<le> uint v" using sint32_uint[of v] by auto
  then have "int (unat v) = 2^32 + sint v" "(2::int)^31 \<le> int (unat v)" unfolding uint_nat by linarith+
  moreover have "((2::int)^31 \<le> int (unat v)) = (2^31 \<le> unat v)" by (metis of_nat_le_iff of_nat_numeral of_nat_power)
  ultimately show ?thesis by simp
qed

section \<open>The option loop\<close>

lemma getopt_loop_append:
  "getopt_loop m (xs @ ys) d l =
     (case getopt_loop m xs d l of None \<Rightarrow> None | Some (d', l') \<Rightarrow> getopt_loop m ys d' l')"
  by (induction m xs d l rule: getopt_loop.induct) simp_all

lemma getopt_loop_no_t:
  "Opt_other \<notin> set os \<Longrightarrow> \<forall>u. Opt_t u \<notin> set os \<Longrightarrow>
   \<exists>d'. getopt_loop m os d l = Some (d', l)"
  by (induction m os d l rule: getopt_loop.induct) auto

lemma getopt_loop_some:
  "Opt_other \<notin> set os \<Longrightarrow> \<exists>d' l'. getopt_loop m os d l = Some (d', l')"
  by (induction m os d l rule: getopt_loop.induct) simp_all

lemma getopt_loop_none:
  "Opt_other \<in> set os \<Longrightarrow> getopt_loop m os d l = None"
  by (induction m os d l rule: getopt_loop.induct) simp_all

lemma clamp_range:
  fixes v m :: "32 word"
  assumes "2 \<le> m"
  shows "2 \<le> (if v < 2 then 2 else if v > m then m else v) \<and> (if v < 2 then 2 else if v > m then m else v) \<le> m"
  using assms by auto

lemma getopt_loop_range:
  "getopt_loop m os d l = Some (d', l') \<Longrightarrow> 2 \<le> m \<Longrightarrow> 2 \<le> l \<and> l \<le> m \<Longrightarrow> 2 \<le> l' \<and> l' \<le> m"
proof (induction m os d l rule: getopt_loop.induct)
  case (3 maxThreads atoi_optarg os dFlag limiter)
  show ?case
    by (rule "3.IH") (use "3.prems" clamp_range[of maxThreads atoi_optarg] in simp_all)
qed simp_all

lemma getopt_loop_bound:
  "getopt_loop m os d l = Some (d', l') \<Longrightarrow> l \<le> max 2 m \<Longrightarrow> l' \<le> max 2 m"
proof (induction m os d l rule: getopt_loop.induct)
  case (3 maxThreads atoi_optarg os dFlag limiter)
  show ?case
    by (rule "3.IH") (use "3.prems" in \<open>auto simp: max_def\<close>)
qed simp_all

lemma sint_nonneg_unsigned:
  fixes v :: "32 word"
  assumes "0 \<le> sint v"
  shows "sint v = uint v"
  using assms sint32_uint[of v] uint_lt2p[of v] by (auto split: if_splits)

lemma clamp_nonneg:
  fixes v m :: "32 word"
  assumes "0 \<le> sint v"
  shows "(if v < 2 then 2 else if v > m then m else v) =
         (if sint v < 2 then 2 else if uint m < sint v then m else v)"
proof -
  have "sint v = uint v" using assms by (rule sint_nonneg_unsigned)
  moreover have "v < 2 \<longleftrightarrow> uint v < 2" by (simp add: word_less_def)
  moreover have "m < v \<longleftrightarrow> uint m < uint v" by (simp add: word_less_def)
  ultimately show ?thesis by simp
qed

text \<open>
  C7, as the code has it. Without \<open>-t\<close> the thread count is 2. The argument of the last \<open>-t\<close>, when
  \<open>atoi\<close> gives a non-negative value \<open>v\<close> for it, sets the thread count to 2 if \<open>v < 2\<close>, to
  the hardware concurrency if \<open>v\<close> is at least 2 and above it, and to \<open>v\<close> otherwise. When the
  hardware concurrency is at least 2, the thread count lies between 2 and the hardware
  concurrency whatever was supplied.
\<close>

theorem thread_count_clamp:
  assumes "Opt_other \<notin> set opts"
  shows "\<exists>dFlag limiter. getopt_loop maxThreads opts False 2 = Some (dFlag, limiter) \<and>
     ((\<forall>v. Opt_t v \<notin> set opts) \<longrightarrow> limiter = 2) \<and>
     (\<forall>pre v post. opts = pre @ Opt_t v # post \<and> (\<forall>u. Opt_t u \<notin> set post) \<and> 0 \<le> sint v \<longrightarrow>
        limiter = (if sint v < 2 then 2 else if uint maxThreads < sint v then maxThreads else v)) \<and>
     (2 \<le> maxThreads \<longrightarrow> 2 \<le> limiter \<and> limiter \<le> maxThreads)"
proof -
  obtain dFlag limiter where g: "getopt_loop maxThreads opts False 2 = Some (dFlag, limiter)"
    using getopt_loop_some[OF assms] by blast
  have a: "limiter = 2" if "\<forall>v. Opt_t v \<notin> set opts"
    using getopt_loop_no_t[OF assms that, of maxThreads False 2] g by simp
  have b: "limiter = (if sint v < 2 then 2 else if uint maxThreads < sint v then maxThreads else v)"
    if h1: "opts = pre @ Opt_t v # post" and h2: "\<forall>u. Opt_t u \<notin> set post" and h3: "0 \<le> sint v"
    for pre v post
  proof -
    have "Opt_other \<notin> set pre" "Opt_other \<notin> set post" using assms h1 by auto
    then obtain d1 l1 d2 where
      p: "getopt_loop maxThreads pre False 2 = Some (d1, l1)" and
      q: "getopt_loop maxThreads post d1 (if v < 2 then 2 else if v > maxThreads then maxThreads else v)
            = Some (d2, if v < 2 then 2 else if v > maxThreads then maxThreads else v)"
      using getopt_loop_some[of pre maxThreads False 2] getopt_loop_no_t[OF _ h2] by blast
    have "getopt_loop maxThreads opts False 2
            = Some (d2, if v < 2 then 2 else if v > maxThreads then maxThreads else v)"
      unfolding h1 getopt_loop_append p using q by simp
    then have "limiter = (if v < 2 then 2 else if v > maxThreads then maxThreads else v)"
      using g by simp
    then show ?thesis using clamp_nonneg[OF h3] by simp
  qed
  have c: "2 \<le> limiter \<and> limiter \<le> maxThreads" if "2 \<le> maxThreads"
    using getopt_loop_range[OF g that] that by simp
  show ?thesis using g a b c by blast
qed

theorem thread_count_clamp_witness:
  "Opt_other \<notin> set [Opt_d, Opt_t 1, Opt_t 5] \<and>
   [Opt_d, Opt_t 1, Opt_t 5] = [Opt_d, Opt_t 1] @ Opt_t 5 # [] \<and> (\<forall>u. Opt_t u \<notin> set []) \<and>
   0 \<le> sint (5 :: 32 word) \<and> (2 :: 32 word) \<le> 4 \<and>
   getopt_loop 4 [Opt_d, Opt_t 1, Opt_t 5] False 2 = Some (True, 4)"
  using thread_count_clamp[of "[Opt_d, Opt_t 1, Opt_t 5]" 4] by simp

text \<open>
  A value below 2 does not always become 2, and the thread count is not always at least
  2: with \<open>-t -1\<close> on a machine with 8 hardware threads the thread count becomes 8, and
  with \<open>-t 3\<close> where the hardware concurrency is 1 it becomes 1.
\<close>

theorem thread_count_clamp_counterexample:
  "sint (- 1 :: 32 word) < 2 \<and> getopt_loop 8 [Opt_t (- 1)] False 2 = Some (False, 8) \<and>
   (8 :: 32 word) \<noteq> 2 \<and>
   getopt_loop 1 [Opt_t 3] False 2 = Some (False, 1) \<and> (1 :: 32 word) < 2"
  by simp

text \<open>
  C10. A negative value of \<open>atoi(optarg)\<close>, stored in the \<open>uint32_t limiter\<close>, is the value
  plus \<open>2^32\<close>, at least \<open>2^31\<close>; so it is not below 2, and the thread count becomes the
  hardware concurrency whenever that is smaller (as it is for every hardware concurrency
  below \<open>2^31\<close>), not 2.
\<close>

theorem negative_thread_count:
  assumes "sint atoi_optarg < 0"
  shows "int (unat atoi_optarg) = 2 ^ 32 + sint atoi_optarg \<and> 2 ^ 31 \<le> unat atoi_optarg \<and>
         getopt_loop maxThreads [Opt_t atoi_optarg] dFlag limiter
           = Some (dFlag, if maxThreads < atoi_optarg then maxThreads else atoi_optarg) \<and>
         (unat maxThreads < 2 ^ 31 \<longrightarrow>
            getopt_loop maxThreads [Opt_t atoi_optarg] dFlag limiter = Some (dFlag, maxThreads))"
proof -
  have w: "int (unat atoi_optarg) = 2 ^ 32 + sint atoi_optarg" and b: "2 ^ 31 \<le> unat atoi_optarg"
    using sint32_neg_unat[OF assms] by auto
  have "unat (2 :: 32 word) = 2" by simp
  then have n2: "\<not> atoi_optarg < 2" using b unfolding word_less_nat_alt by simp
  have lt: "maxThreads < atoi_optarg" if "unat maxThreads < 2 ^ 31"
    using that b unfolding word_less_nat_alt by linarith
  show ?thesis using w b n2 lt by simp
qed

theorem negative_thread_count_witness:
  "sint (- 3 :: 32 word) < 0 \<and> unat (8 :: 32 word) < 2 ^ 31 \<and>
   getopt_loop 8 [Opt_t (- 3)] False 2 = Some (False, 8)"
  using negative_thread_count[of "- 3" 8 False 2] by simp

section \<open>One claim of the dynamic strategy\<close>

lemma claim_eq:
  "claim c = (if 0 < sint c then (c - 1, False, c - 1) else (c, True, c))"
  by (simp add: claim_def)

text \<open>
  The row that is processed is not the value of the counter before the decrement: at the
  first claim of a run the counter is 1000, and the thread holds row 999.
\<close>

theorem claim_row_counterexample:
  "0 < sint (1000 :: 32 word) \<and> claim 1000 = (999, False, 999) \<and>
   sum_dynamic_step (\<lambda>r c. 0) 0 (dyn_init 1) = Inr ((dyn_init 1)\<lparr>counter := 999, pcs := [Holding 999], claims := [999]\<rparr>) \<and>
   (999 :: 32 word) \<noteq> 1000"
  by (simp add: claim_def sum_dynamic_step_def dyn_init_def rows_def)

lemma step_claiming:
  assumes "pcs s ! t = Claiming" "0 < sint (counter s)"
  shows "sum_dynamic_step work t s =
           Inr (s\<lparr>counter := counter s - 1, pcs := (pcs s)[t := Holding (counter s - 1)],
                  claims := claims s @ [counter s - 1]\<rparr>)"
  using assms by (simp add: sum_dynamic_step_def claim_def)

lemma step_claiming_empty:
  assumes "pcs s ! t = Claiming" "\<not> 0 < sint (counter s)" "valid_tid (word_of_nat t) s"
  shows "sum_dynamic_step work t s = Inr (s\<lparr>pcs := (pcs s)[t := Finished]\<rparr>)"
  using assms by (simp add: sum_dynamic_step_def claim_def)

lemma step_holding:
  assumes "pcs s ! t = Holding c" "valid_tid (word_of_nat t) s" "0 \<le> sint c" "sint c < int rows"
  shows "sum_dynamic_step work t s =
           Inr ((process_row work (nat (sint (word_of_nat t :: 32 word))) (nat (sint c)) s)\<lparr>pcs := (pcs s)[t := Claiming]\<rparr>)"
  using assms by (simp add: sum_dynamic_step_def)

lemma valid_tid_simps [simp]:
  "valid_tid tid (s\<lparr>counter := c\<rparr>) = valid_tid tid s"
  "valid_tid tid (s\<lparr>pcs := p\<rparr>) = valid_tid tid s"
  "valid_tid tid (s\<lparr>claims := cl\<rparr>) = valid_tid tid s"
  by (simp_all add: valid_tid_def)

text \<open>
  C3, as the code has it. A thread about to claim takes one step under the lock. If the counter is
  positive, the step decrements it once, and the value after the decrement is the row the
  thread processes next; the vectors are untouched by the claim. If the counter is not
  positive, the thread returns and the counter keeps its value.
\<close>

theorem claim_step:
  assumes "t < length (pcs s)" and "pcs s ! t = Claiming" and "valid_tid (word_of_nat t) s"
  shows "(0 < sint (counter s) \<longrightarrow>
           (\<exists>s1. sum_dynamic_step work t s = Inr s1 \<and>
                 counter s1 = counter s - 1 \<and> sint (counter s1) = sint (counter s) - 1 \<and>
                 pcs s1 ! t = Holding (counter s1) \<and>
                 tcount s1 = tcount s \<and> sum_vec s1 = sum_vec s \<and> seen s1 = seen s \<and>
                 (sint (counter s1) < int rows \<longrightarrow>
                    (\<exists>s2. sum_dynamic_step work t s1 = Inr s2 \<and> counter s2 = counter s1 \<and>
                          seen s2 = (seen s)(nat (sint (word_of_nat t :: 32 word)) :=
                             seen s (nat (sint (word_of_nat t :: 32 word))) @ [nat (sint (counter s) - 1)]))))) \<and>
         (\<not> 0 < sint (counter s) \<longrightarrow>
           sum_dynamic_step work t s = Inr (s\<lparr>pcs := (pcs s)[t := Finished]\<rparr>))"
proof (intro conjI impI)
  assume pos: "0 < sint (counter s)"
  let ?s1 = "s\<lparr>counter := counter s - 1, pcs := (pcs s)[t := Holding (counter s - 1)],
                  claims := claims s @ [counter s - 1]\<rparr>"
  have d: "sint (counter s - 1) = sint (counter s) - 1" using pos by (rule sint32_dec)
  have 1: "sum_dynamic_step work t s = Inr ?s1" using assms(2) pos by (rule step_claiming)
  have h: "pcs ?s1 ! t = Holding (counter s - 1)" using assms(1) by simp
  have v: "valid_tid (word_of_nat t) ?s1" using assms(3) by simp
  have 2: "sint (counter s - 1) < int rows \<Longrightarrow>
        \<exists>s2. sum_dynamic_step work t ?s1 = Inr s2 \<and> counter s2 = counter ?s1 \<and>
                          seen s2 = (seen s)(nat (sint (word_of_nat t :: 32 word)) :=
                             seen s (nat (sint (word_of_nat t :: 32 word))) @ [nat (sint (counter s) - 1)])"
    using step_holding[OF h v, of work] pos d by (simp add: process_row_def)
  show "\<exists>s1. sum_dynamic_step work t s = Inr s1 \<and>
                 counter s1 = counter s - 1 \<and> sint (counter s1) = sint (counter s) - 1 \<and>
                 pcs s1 ! t = Holding (counter s1) \<and>
                 tcount s1 = tcount s \<and> sum_vec s1 = sum_vec s \<and> seen s1 = seen s \<and>
                 (sint (counter s1) < int rows \<longrightarrow>
                    (\<exists>s2. sum_dynamic_step work t s1 = Inr s2 \<and> counter s2 = counter s1 \<and>
                          seen s2 = (seen s)(nat (sint (word_of_nat t :: 32 word)) :=
                             seen s (nat (sint (word_of_nat t :: 32 word))) @ [nat (sint (counter s) - 1)])))"
    apply (rule exI[of _ ?s1])
    using 1 d h 2 by simp
next
  assume "\<not> 0 < sint (counter s)"
  then show "sum_dynamic_step work t s = Inr (s\<lparr>pcs := (pcs s)[t := Finished]\<rparr>)"
    using assms by (simp add: step_claiming_empty)
qed


theorem claim_step_witness:
  "0 < length (pcs (dyn_init 2)) \<and> pcs (dyn_init 2) ! 0 = Claiming \<and>
   valid_tid (word_of_nat 0) (dyn_init 2) \<and> 0 < sint (counter (dyn_init 2)) \<and>
   (\<exists>s1. sum_dynamic_step (\<lambda>r c. 1) 0 (dyn_init 2) = Inr s1 \<and> counter s1 = 999 \<and>
         pcs s1 ! 0 = Holding 999 \<and> sint (counter s1) < int rows \<and>
         (\<exists>s2. sum_dynamic_step (\<lambda>r c. 1) 0 s1 = Inr s2 \<and> counter s2 = 999 \<and> seen s2 0 = [999])) \<and>
   \<not> 0 < sint (counter ((dyn_init 2)\<lparr>counter := 0\<rparr>)) \<and>
   sum_dynamic_step (\<lambda>r c. 1) 0 ((dyn_init 2)\<lparr>counter := 0\<rparr>)
     = Inr ((dyn_init 2)\<lparr>counter := 0, pcs := [Finished, Claiming]\<rparr>)"
proof -
  have a: "0 < length (pcs (dyn_init 2))" "pcs (dyn_init 2) ! 0 = Claiming"
    "valid_tid (word_of_nat 0) (dyn_init 2)" "0 < sint (counter (dyn_init 2))"
    "counter (dyn_init 2) - 1 = 999" "seen (dyn_init 2) = (\<lambda>t. [])"
    by (simp_all add: dyn_init_def valid_tid_def vec_index_def rows_def)
  have r: "sint (999 :: 32 word) < int rows" by (simp add: rows_def)
  have b: "0 < length (pcs ((dyn_init 2)\<lparr>counter := 0\<rparr>))" "pcs ((dyn_init 2)\<lparr>counter := 0\<rparr>) ! 0 = Claiming"
    "valid_tid (word_of_nat 0) ((dyn_init 2)\<lparr>counter := 0\<rparr>)" "\<not> 0 < sint (counter ((dyn_init 2)\<lparr>counter := 0\<rparr>))"
    by (simp_all add: dyn_init_def valid_tid_def vec_index_def)
  have p: "(pcs ((dyn_init 2)\<lparr>counter := 0\<rparr>))[0 := Finished] = [Finished, Claiming]"
    by (simp add: dyn_init_def numeral_2_eq_2)
  show ?thesis
    using claim_step[OF a(1,2,3), of "\<lambda>r c. 1"] claim_step[OF b(1,2,3), of "\<lambda>r c. 1"] a b r p
    by auto
qed

section \<open>Rows and their sums\<close>

lemma fold_add_sum_list:
  fixes acc :: "'a::comm_monoid_add"
  shows "fold (\<lambda>i a. a + f i) xs acc = acc + sum_list (map f xs)"
  by (induction xs arbitrary: acc) (simp_all add: add.assoc)

lemma add_row_total: "add_row work r acc = acc + row_total work r"
  unfolding add_row_def row_total_def fold_add_sum_list
  by (simp add: interv_sum_list_conv_sum_set_nat atLeast0LessThan)

lemma mod_between:
  fixes r x N :: nat
  assumes "r < x" "x < r + N"
  shows "x mod N \<noteq> r mod N"
proof
  assume "x mod N = r mod N"
  then have "N dvd x - r" using assms(1) by (simp add: mod_eq_dvd_iff_nat)
  moreover have "0 < x - r" "x - r < N" using assms by auto
  ultimately show False using nat_dvd_not_less by blast
qed

lemma filter_stride_skip:
  fixes r N t :: nat
  assumes "r mod N = t" "0 < N"
  shows "filter (\<lambda>x. x mod N = t) [Suc r..<n] = filter (\<lambda>x. x mod N = t) [r + N..<n]"
proof (cases "r + N \<le> n")
  case True
  have "Suc r \<le> r + N" using assms(2) by simp
  then have s: "[Suc r..<n] = [Suc r..<r + N] @ [r + N..<n]"
    using True by (metis le_Suc_ex upt_add_eq_append)
  have "filter (\<lambda>x. x mod N = t) [Suc r..<r + N] = []"
    using mod_between[of r _ N] assms by (auto simp: filter_empty_conv)
  then show ?thesis unfolding s by simp
next
  case False
  then have f: "filter (\<lambda>x. x mod N = t) [Suc r..<n] = []"
    using mod_between[of r _ N] assms by (auto simp: filter_empty_conv)
  have e: "[r + N..<n] = []" using False by simp
  show ?thesis unfolding f e by simp
qed

lemma filter_stride_step:
  fixes r N t :: nat
  assumes "r mod N = t" "0 < N" "r < n"
  shows "filter (\<lambda>x. x mod N = t) [r..<n] = r # filter (\<lambda>x. x mod N = t) [r + N..<n]"
  using assms filter_stride_skip[OF assms(1,2), of n] by (simp add: upt_conv_Cons)

lemma process_row_lengths [simp]:
  "length (tcount (process_row work t r st)) = length (tcount st)"
  "length (sum_vec (process_row work t r st)) = length (sum_vec st)"
  by (simp_all add: process_row_def)

lemma valid_tid_process_row [simp]:
  "valid_tid tid (process_row work t r st) = valid_tid tid st"
  by (simp add: valid_tid_def vec_index_def)

lemma valid_tid_of_nat:
  "t < 2 ^ 31 \<Longrightarrow> valid_tid (word_of_nat t) st \<longleftrightarrow> t < length (tcount st) \<and> t < length (sum_vec st)"
  by (simp add: valid_tid_def vec_index_def sint32_of_nat)

lemma static_iter_stop:
  assumes "valid_tid tid st" "int rows \<le> sint row"
  shows "static_iter work tid n row st = Inr (None, st)"
  using assms by (simp add: static_iter_def)

lemma static_iter_next:
  assumes "valid_tid tid st" "0 \<le> sint row" "sint row < int rows"
  shows "static_iter work tid n row st = Inr (Some (row + n), process_row work (nat (sint tid)) (nat (sint row)) st)"
  using assms by (simp add: static_iter_def)

lemma static_loop_strided:
  assumes N: "1 \<le> N" "N + rows \<le> 2 ^ 31" and t: "t < N"
  shows "t < length (tcount st) \<Longrightarrow> t < length (sum_vec st) \<Longrightarrow> r mod N = t \<Longrightarrow> r < rows + N \<Longrightarrow>
    static_loop work (word_of_nat t) (word_of_nat N) (word_of_nat r) st
      = Some (Inr (fold (process_row work t) (filter (\<lambda>x. x mod N = t) [r..<rows]) st))"
proof (induction "rows + N - r" arbitrary: r st rule: less_induct)
  case less
  have t31: "t < 2 ^ 31" and r31: "r < 2 ^ 31" using N t less.prems by auto
  have v: "valid_tid (word_of_nat t) st" using less.prems t31 by (simp add: valid_tid_of_nat)
  have sr: "sint (word_of_nat r :: 32 word) = int r" using r31 by (rule sint32_of_nat)
  have st: "sint (word_of_nat t :: 32 word) = int t" using t31 by (rule sint32_of_nat)
  show ?case
  proof (cases "r < rows")
    case False
    then have "static_iter work (word_of_nat t) (word_of_nat N) (word_of_nat r) st = Inr (None, st)"
      using v sr by (intro static_iter_stop) auto
    then show ?thesis using False by (subst static_loop.simps) simp
  next
    case True
    let ?st' = "process_row work t r st"
    have it: "static_iter work (word_of_nat t) (word_of_nat N) (word_of_nat r) st
        = Inr (Some (word_of_nat (r + N)), ?st')"
      using static_iter_next[OF v, of "word_of_nat r" work "word_of_nat N"] sr st True by simp
    have "static_loop work (word_of_nat t) (word_of_nat N) (word_of_nat (r + N)) ?st'
      = Some (Inr (fold (process_row work t) (filter (\<lambda>x. x mod N = t) [r + N..<rows]) ?st'))"
      using less.prems True N by (intro less.hyps) auto
    then show ?thesis
      using it filter_stride_step[OF less.prems(3) _ True] N
      by (subst static_loop.simps) simp
  qed
qed

section \<open>The loop of \<open>sum_static\<close>\<close>

lemma run_threads_total:
  fixes m :: "'s \<Rightarrow> nat"
  assumes inv: "I s"
    and step: "\<And>s t. I s \<Longrightarrow> t \<in> set (runnable s) \<Longrightarrow> \<exists>s'. step t s = Inr s' \<and> I s' \<and> m s' < m s"
  shows "\<exists>s'. run_threads runnable step sched k s = Some (Inr s') \<and> I s' \<and> runnable s' = []"
  using inv
proof (induction "m s" arbitrary: s k rule: less_induct)
  case less
  show ?case
  proof (cases "runnable s = []")
    case True
    then show ?thesis using less.prems by (subst run_threads.simps) simp
  next
    case False
    let ?t = "runnable s ! (sched k mod length (runnable s))"
    have "?t \<in> set (runnable s)" using False by simp
    then obtain s1 where s1: "step ?t s = Inr s1" "I s1" "m s1 < m s"
      using step[OF less.prems] by blast
    obtain s2 where "run_threads runnable step sched (Suc k) s1 = Some (Inr s2)" "I s2" "runnable s2 = []"
      using less.hyps[OF s1(3) s1(2)] by blast
    then show ?thesis using False s1(1) by (subst run_threads.simps) simp
  qed
qed

lemma fold_process_row:
  assumes "t < length (tcount st)" "t < length (sum_vec st)"
  shows "fold (process_row work t) rs st =
     st\<lparr>tcount := (tcount st)[t := tcount st ! t + of_nat (length rs)],
        sum_vec := (sum_vec st)[t := sum_vec st ! t + sum_list (map (row_total work) rs)],
        seen := (seen st)(t := seen st t @ rs)\<rparr>"
  using assms
proof (induction rs arbitrary: st)
  case Nil
  then show ?case by simp
next
  case (Cons r rs)
  have "fold (process_row work t) (r # rs) st = fold (process_row work t) rs (process_row work t r st)"
    by simp
  also have "\<dots> = (process_row work t r st)\<lparr>tcount := (tcount (process_row work t r st))[t := tcount (process_row work t r st) ! t + of_nat (length rs)],
        sum_vec := (sum_vec (process_row work t r st))[t := sum_vec (process_row work t r st) ! t + sum_list (map (row_total work) rs)],
        seen := (seen (process_row work t r st))(t := seen (process_row work t r st) t @ rs)\<rparr>"
    using Cons.prems by (intro Cons.IH) simp_all
  also have "\<dots> = st\<lparr>tcount := (tcount st)[t := tcount st ! t + of_nat (length (r # rs))],
        sum_vec := (sum_vec st)[t := sum_vec st ! t + sum_list (map (row_total work) (r # rs))],
        seen := (seen st)(t := seen st t @ (r # rs))\<rparr>"
    using Cons.prems by (simp add: process_row_def add_row_total ac_simps)
  finally show ?case .
qed

lemma static_loop_terminates:
  assumes "1 \<le> sint n"
  shows "\<exists>y. static_loop work tid n row st = Some y"
proof (induction "nat (int rows - sint row)" arbitrary: row st rule: less_induct)
  case less
  show ?case
  proof (cases "valid_tid tid st \<and> 0 \<le> sint row \<and> sint row < int rows")
    case False
    then show ?thesis by (subst static_loop.simps) (auto simp: static_iter_def)
  next
    case True
    let ?st' = "process_row work (nat (sint tid)) (nat (sint row)) st"
    have it: "static_iter work tid n row st = Inr (Some (row + n), ?st')"
      using True by (simp add: static_iter_next)
    have u: "static_loop work tid n row st = static_loop work tid n (row + n) ?st'"
      using it by (subst static_loop.simps) simp
    show ?thesis
    proof (cases "sint row + sint n < 2 ^ 31")
      case small: True
      have "\<not> sint row + sint n < - (2 ^ 31)" using True assms by simp
      then have "sint (row + n) = sint row + sint n" using small by (simp add: sint32_add)
      then have "nat (int rows - sint (row + n)) < nat (int rows - sint row)"
        using True assms by simp
      then show ?thesis unfolding u by (rule less.hyps)
    next
      case False
      have "sint row + sint n < 2 ^ 32" using sint32_range[of row] sint32_range[of n] by simp
      moreover have "\<not> sint row + sint n < - (2 ^ 31)" using True assms by simp
      ultimately have "sint (row + n) < 0" using False by (simp add: sint32_add)
      then have "static_iter work tid n (row + n) ?st' = Inl OutOfBounds"
        using rows_def by (simp add: static_iter_def)
      then show ?thesis unfolding u by (subst static_loop.simps) simp
    qed
  qed
qed

lemma static_loop_Some_not_stuck:
  assumes "static_loop work tid n row st = Some y"
  shows "\<not> (n = 0 \<and> valid_tid tid st \<and> 0 \<le> sint row \<and> sint row < int rows)"
proof (rule static_loop.raw_induct[where P = "\<lambda>work tid n row st y.
          \<not> (n = 0 \<and> valid_tid tid st \<and> 0 \<le> sint row \<and> sint row < int rows)", OF _ assms])
  fix f :: "matrix \<Rightarrow> 32 word \<Rightarrow> 32 word \<Rightarrow> 32 word \<Rightarrow> workers \<Rightarrow> (error + workers) option"
    and work tid n row st y
  assume IH: "\<And>work tid n row st y. f work tid n row st = Some y \<Longrightarrow>
          \<not> (n = 0 \<and> valid_tid tid st \<and> 0 \<le> sint row \<and> sint row < int rows)"
    and body: "(case static_iter work tid n row st of
        Inl e \<Rightarrow> Some (Inl e)
      | Inr (None, st') \<Rightarrow> Some (Inr st')
      | Inr (Some row', st') \<Rightarrow> f work tid n row' st') = Some y"
  show "\<not> (n = 0 \<and> valid_tid tid st \<and> 0 \<le> sint row \<and> sint row < int rows)"
  proof
    assume c: "n = 0 \<and> valid_tid tid st \<and> 0 \<le> sint row \<and> sint row < int rows"
    let ?st' = "process_row work (nat (sint tid)) (nat (sint row)) st"
    have "static_iter work tid n row st = Inr (Some row, ?st')"
      using c by (simp add: static_iter_next)
    then have "f work tid n row ?st' = Some y" using body by simp
    then have "\<not> (n = 0 \<and> valid_tid tid ?st' \<and> 0 \<le> sint row \<and> sint row < int rows)" by (rule IH)
    then show False using c by simp
  qed
qed

lemma static_loop_diverges:
  assumes "valid_tid tid st" "0 \<le> sint row" "sint row < int rows"
  shows "static_loop work tid 0 row st = None"
proof (cases "static_loop work tid 0 row st")
  case (Some y)
  then show ?thesis using static_loop_Some_not_stuck[OF Some] assms by simp
qed simp

lemma static_loop_returns:
  assumes n: "1 \<le> sint n" "sint n + int rows \<le> 2 ^ 31"
  shows "valid_tid tid st \<Longrightarrow> 0 \<le> sint row \<Longrightarrow>
         \<exists>st'. static_loop work tid n row st = Some (Inr st')"
proof (induction "nat (int rows - sint row)" arbitrary: row st rule: less_induct)
  case less
  show ?case
  proof (cases "int rows \<le> sint row")
    case True
    then have "static_iter work tid n row st = Inr (None, st)"
      using less.prems(1) by (intro static_iter_stop)
    then show ?thesis by (subst static_loop.simps) simp
  next
    case False
    let ?st' = "process_row work (nat (sint tid)) (nat (sint row)) st"
    have it: "static_iter work tid n row st = Inr (Some (row + n), ?st')"
      using less.prems False by (simp add: static_iter_next)
    have u: "static_loop work tid n row st = static_loop work tid n (row + n) ?st'"
      using it by (subst static_loop.simps) simp
    have "sint row + sint n < 2 ^ 31" using False n(2) by simp
    moreover have "\<not> sint row + sint n < - (2 ^ 31)" using less.prems(2) n(1) by simp
    ultimately have s: "sint (row + n) = sint row + sint n" by (simp add: sint32_add)
    have "nat (int rows - sint (row + n)) < nat (int rows - sint row)"
      unfolding s using False n(1) by simp
    moreover have "valid_tid tid ?st'" using less.prems(1) by simp
    moreover have "0 \<le> sint (row + n)" unfolding s using less.prems(2) n(1) by simp
    ultimately show ?thesis unfolding u by (rule less.hyps)
  qed
qed

section \<open>Sums over the threads\<close>

lemma sum_nth_update:
  fixes g :: "'b \<Rightarrow> 'a::comm_monoid_add"
  assumes "t < N" "N \<le> length xs"
  shows "(\<Sum>i<N. g (xs[t := v] ! i)) + g (xs ! t) = (\<Sum>i<N. g (xs ! i)) + g v"
proof -
  have t: "t \<in> {..<N}" using assms by simp
  have "(\<Sum>i<N. g (xs[t := v] ! i)) = g (xs[t := v] ! t) + (\<Sum>i\<in>{..<N} - {t}. g (xs[t := v] ! i))"
    by (rule sum.remove) (use t in simp_all)
  also have "(\<Sum>i\<in>{..<N} - {t}. g (xs[t := v] ! i)) = (\<Sum>i\<in>{..<N} - {t}. g (xs ! i))"
    by (intro sum.cong) auto
  finally have a: "(\<Sum>i<N. g (xs[t := v] ! i)) = g v + (\<Sum>i\<in>{..<N} - {t}. g (xs ! i))"
    using assms by simp
  have b: "(\<Sum>i<N. g (xs ! i)) = g (xs ! t) + (\<Sum>i\<in>{..<N} - {t}. g (xs ! i))"
    by (rule sum.remove) (use t in simp_all)
  show ?thesis unfolding a b by (simp add: ac_simps)
qed

lemma sum_fun_upd:
  fixes g :: "'b \<Rightarrow> 'a::comm_monoid_add" and t N :: nat
  assumes "t < N"
  shows "(\<Sum>i<N. g ((f(t := v)) i)) + g (f t) = (\<Sum>i<N. g (f i)) + g v"
proof -
  have t: "t \<in> {..<N}" using assms by simp
  have "(\<Sum>i<N. g ((f(t := v)) i)) = g ((f(t := v)) t) + (\<Sum>i\<in>{..<N} - {t}. g ((f(t := v)) i))"
    by (rule sum.remove) (use t in simp_all)
  also have "(\<Sum>i\<in>{..<N} - {t}. g ((f(t := v)) i)) = (\<Sum>i\<in>{..<N} - {t}. g (f i))"
    by (intro sum.cong) auto
  finally have a: "(\<Sum>i<N. g ((f(t := v)) i)) = g v + (\<Sum>i\<in>{..<N} - {t}. g (f i))"
    by simp
  have b: "(\<Sum>i<N. g (f i)) = g (f t) + (\<Sum>i\<in>{..<N} - {t}. g (f i))"
    by (rule sum.remove) (use t in simp_all)
  show ?thesis unfolding a b by (simp add: ac_simps)
qed

lemma rows_bound: "rows < 2 ^ 31" "0 < rows"
  by (simp_all add: rows_def)

lemma unat32_of_nat: "n < 2 ^ 31 \<Longrightarrow> unat (word_of_nat n :: 32 word) = n"
  by (simp add: unat_of_nat)

lemma dyn_runnable_iff: "t \<in> set (dyn_runnable s) \<longleftrightarrow> t < length (pcs s) \<and> pcs s ! t \<noteq> Finished"
  by (auto simp: dyn_runnable_def)

lemma dyn_runnable_Nil: "dyn_runnable s = [] \<longleftrightarrow> (\<forall>t<length (pcs s). pcs s ! t = Finished)"
  by (auto simp: dyn_runnable_def filter_empty_conv)

lemma consistent_cong:
  assumes "consistent work N s" "tcount s' = tcount s" "sum_vec s' = sum_vec s" "seen s' = seen s"
  shows "consistent work N s'"
  using assms by (simp add: consistent_def)

lemma consistent_process_row:
  assumes "consistent work N s" "t < N"
  shows "consistent work N (process_row work t r s)"
  using assms by (auto simp: consistent_def process_row_def add_row_total nth_list_update)

section \<open>The threads of a dynamic run\<close>

declare mset_upt [simp del]

lemma dyn_init_inv: "dyn_inv work N (dyn_init N)"
  unfolding dyn_inv_def
  by (auto simp: dyn_init_def consistent_def intro!: exI[of _ rows])

lemma dyn_step_claim:
  assumes inv: "dyn_inv work N s" and t: "t < N" and pc: "pcs s ! t = Claiming"
    and pos: "0 < sint (counter s)"
  shows "\<exists>s'. sum_dynamic_step work t s = Inr s' \<and> dyn_inv work N s' \<and> dyn_measure s' < dyn_measure s"
proof -
  from inv obtain c where len: "length (pcs s) = N" and con: "consistent work N s"
    and c: "c \<le> rows" "counter s = of_nat c"
    and cov: "(\<Sum>t<N. mset (seen s t)) + (\<Sum>t<N. held (pcs s ! t)) = mset [c..<rows]"
    and cl: "claims s = map of_nat (rev [c..<rows])"
    and fin: "(\<exists>t<N. pcs s ! t = Finished) \<longrightarrow> c = 0"
    unfolding dyn_inv_def by blast
  have c31: "c < 2 ^ 31" using c(1) rows_bound by simp
  have sc: "sint (counter s) = int c" using c(2) c31 by (simp add: sint32_of_nat)
  then have cpos: "0 < c" using pos by simp
  then have nofin: "\<forall>t<N. pcs s ! t \<noteq> Finished" using fin by auto
  have dec: "counter s - 1 = of_nat (c - 1)" using c(2) cpos by simp
  have u1: "unat (counter s - 1) = c - 1" unfolding dec using c31 by (simp add: unat32_of_nat)
  have u0: "unat (counter s) = c" unfolding c(2) using c31 by (simp add: unat32_of_nat)
  let ?s' = "s\<lparr>counter := counter s - 1, pcs := (pcs s)[t := Holding (counter s - 1)],
                  claims := claims s @ [counter s - 1]\<rparr>"
  have step: "sum_dynamic_step work t s = Inr ?s'" using pc pos by (rule step_claiming)
  have h: "(\<Sum>i<N. held ((pcs s)[t := Holding (counter s - 1)] ! i)) + held (pcs s ! t)
             = (\<Sum>i<N. held (pcs s ! i)) + held (Holding (counter s - 1))"
    using t len by (intro sum_nth_update) auto
  have up: "[c - 1..<rows] = (c - 1) # [c..<rows]" using cpos c(1) by (simp add: upt_conv_Cons)
  have cov': "(\<Sum>t<N. mset (seen s t)) + (\<Sum>i<N. held ((pcs s)[t := Holding (counter s - 1)] ! i))
                = mset [c - 1..<rows]"
    using h cov unfolding up pc by (simp add: u1)
  have nofin': "\<not> (\<exists>i<N. (pcs s)[t := Holding (counter s - 1)] ! i = Finished)"
    using nofin t len by (auto simp: nth_list_update)
  have inv': "dyn_inv work N ?s'"
    unfolding dyn_inv_def
  proof (intro conjI)
    show "length (pcs ?s') = N" using len by simp
    show "consistent work N ?s'" using con by (rule consistent_cong) simp_all
    show "\<exists>c\<le>rows. counter ?s' = of_nat c \<and>
        (\<Sum>t<N. mset (seen ?s' t)) + (\<Sum>t<N. held (pcs ?s' ! t)) = mset [c..<rows] \<and>
        claims ?s' = map of_nat (rev [c..<rows]) \<and>
        ((\<exists>t<N. pcs ?s' ! t = Finished) \<longrightarrow> c = 0)"
    proof (intro exI[of _ "c - 1"] conjI)
      show "c - 1 \<le> rows" using c(1) by simp
      show "counter ?s' = of_nat (c - 1)" using dec by simp
      show "(\<Sum>t<N. mset (seen ?s' t)) + (\<Sum>t<N. held (pcs ?s' ! t)) = mset [c - 1..<rows]"
        using cov' by simp
      show "claims ?s' = map of_nat (rev [c - 1..<rows])" unfolding up using cl dec by simp
      show "(\<exists>t<N. pcs ?s' ! t = Finished) \<longrightarrow> c - 1 = 0" using nofin' by auto
    qed
  qed
  have w: "(\<Sum>i<N. pc_weight ((pcs s)[t := Holding (counter s - 1)] ! i)) + pc_weight (pcs s ! t)
             = (\<Sum>i<N. pc_weight (pcs s ! i)) + pc_weight (Holding (counter s - 1))"
    using t len by (intro sum_nth_update) auto
  have m: "dyn_measure ?s' < dyn_measure s"
    using w cpos unfolding dyn_measure_def pc by (simp add: len u0 u1)
  show ?thesis using step inv' m by blast
qed

lemma dyn_step_finish:
  assumes inv: "dyn_inv work N s" and t: "t < N" and pc: "pcs s ! t = Claiming"
    and npos: "\<not> 0 < sint (counter s)" and N: "N \<le> 2 ^ 31"
  shows "\<exists>s'. sum_dynamic_step work t s = Inr s' \<and> dyn_inv work N s' \<and> dyn_measure s' < dyn_measure s"
proof -
  from inv obtain c where len: "length (pcs s) = N" and con: "consistent work N s"
    and c: "c \<le> rows" "counter s = of_nat c"
    and cov: "(\<Sum>t<N. mset (seen s t)) + (\<Sum>t<N. held (pcs s ! t)) = mset [c..<rows]"
    and cl: "claims s = map of_nat (rev [c..<rows])"
    unfolding dyn_inv_def by blast
  have c31: "c < 2 ^ 31" using c(1) rows_bound by simp
  have sc: "sint (counter s) = int c" using c(2) c31 by (simp add: sint32_of_nat)
  then have c0: "c = 0" using npos by simp
  have t31: "t < 2 ^ 31" using t N by simp
  have v: "valid_tid (word_of_nat t) s"
    using con t t31 by (simp add: valid_tid_of_nat consistent_def)
  let ?s' = "s\<lparr>pcs := (pcs s)[t := Finished]\<rparr>"
  have step: "sum_dynamic_step work t s = Inr ?s'" using pc npos v by (rule step_claiming_empty)
  have h: "(\<Sum>i<N. held ((pcs s)[t := Finished] ! i)) + held (pcs s ! t)
             = (\<Sum>i<N. held (pcs s ! i)) + held Finished"
    using t len by (intro sum_nth_update) auto
  have cov': "(\<Sum>t<N. mset (seen s t)) + (\<Sum>i<N. held ((pcs s)[t := Finished] ! i)) = mset [c..<rows]"
    using h cov unfolding pc by simp
  have inv': "dyn_inv work N ?s'"
    unfolding dyn_inv_def
  proof (intro conjI)
    show "length (pcs ?s') = N" using len by simp
    show "consistent work N ?s'" using con by (rule consistent_cong) simp_all
    show "\<exists>c\<le>rows. counter ?s' = of_nat c \<and>
        (\<Sum>t<N. mset (seen ?s' t)) + (\<Sum>t<N. held (pcs ?s' ! t)) = mset [c..<rows] \<and>
        claims ?s' = map of_nat (rev [c..<rows]) \<and>
        ((\<exists>t<N. pcs ?s' ! t = Finished) \<longrightarrow> c = 0)"
    proof (intro exI[of _ c] conjI)
      show "c \<le> rows" by (rule c(1))
      show "counter ?s' = of_nat c" using c(2) by simp
      show "(\<Sum>t<N. mset (seen ?s' t)) + (\<Sum>t<N. held (pcs ?s' ! t)) = mset [c..<rows]"
        using cov' by simp
      show "claims ?s' = map of_nat (rev [c..<rows])" using cl by simp
      show "(\<exists>t<N. pcs ?s' ! t = Finished) \<longrightarrow> c = 0" using c0 by simp
    qed
  qed
  have w: "(\<Sum>i<N. pc_weight ((pcs s)[t := Finished] ! i)) + pc_weight (pcs s ! t)
             = (\<Sum>i<N. pc_weight (pcs s ! i)) + pc_weight Finished"
    using t len by (intro sum_nth_update) auto
  have m: "dyn_measure ?s' < dyn_measure s"
    using w unfolding dyn_measure_def pc by (simp add: len)
  show ?thesis using step inv' m by blast
qed

lemma dyn_held_in_range:
  assumes inv: "dyn_inv work N s" and t: "t < N" and pc: "pcs s ! t = Holding cc"
  shows "unat cc < rows"
proof -
  from inv obtain c where
    cov: "(\<Sum>t<N. mset (seen s t)) + (\<Sum>t<N. held (pcs s ! t)) = mset [c..<rows]"
    unfolding dyn_inv_def by blast
  have "(\<Sum>i<N. held (pcs s ! i)) = held (pcs s ! t) + (\<Sum>i\<in>{..<N} - {t}. held (pcs s ! i))"
    by (rule sum.remove) (use t in simp_all)
  then have "unat cc \<in># (\<Sum>i<N. held (pcs s ! i))" using pc by simp
  then have "unat cc \<in># mset [c..<rows]" unfolding cov[symmetric] by simp
  then show ?thesis by simp
qed

lemma dyn_step_process:
  assumes inv: "dyn_inv work N s" and t: "t < N" and pc: "pcs s ! t = Holding cc"
    and N: "N \<le> 2 ^ 31"
  shows "\<exists>s'. sum_dynamic_step work t s = Inr s' \<and> dyn_inv work N s' \<and> dyn_measure s' < dyn_measure s"
proof -
  from inv obtain c where len: "length (pcs s) = N" and con: "consistent work N s"
    and c: "c \<le> rows" "counter s = of_nat c"
    and cov: "(\<Sum>t<N. mset (seen s t)) + (\<Sum>t<N. held (pcs s ! t)) = mset [c..<rows]"
    and cl: "claims s = map of_nat (rev [c..<rows])"
    and fin: "(\<exists>t<N. pcs s ! t = Finished) \<longrightarrow> c = 0"
    unfolding dyn_inv_def by blast
  let ?r = "unat cc"
  have r: "?r < rows" using inv t pc by (rule dyn_held_in_range)
  then have r31: "?r < 2 ^ 31" using rows_bound by simp
  have "sint (word_of_nat ?r :: 32 word) = int ?r" using r31 by (rule sint32_of_nat)
  then have scc: "sint cc = int ?r" by simp
  have t31: "t < 2 ^ 31" using t N by simp
  have st: "sint (word_of_nat t :: 32 word) = int t" using t31 by (rule sint32_of_nat)
  have v: "valid_tid (word_of_nat t) s"
    using con t t31 by (simp add: valid_tid_of_nat consistent_def)
  let ?p = "process_row work t ?r s"
  let ?s' = "?p\<lparr>pcs := (pcs s)[t := Claiming]\<rparr>"
  have b: "0 \<le> sint cc" "sint cc < int rows" using scc r by linarith+
  have n: "nat (sint cc) = ?r" "nat (sint (word_of_nat t :: 32 word)) = t"
    unfolding scc st by simp_all
  have step: "sum_dynamic_step work t s = Inr ?s'"
    using step_holding[OF pc v b, of work] unfolding n .
  have seen': "seen ?s' = (seen s)(t := seen s t @ [?r])" by (simp add: process_row_def)
  have a: "(\<Sum>i<N. mset (((seen s)(t := seen s t @ [?r])) i)) + mset (seen s t)
             = (\<Sum>i<N. mset (seen s i)) + mset (seen s t @ [?r])"
    using t by (rule sum_fun_upd)
  have h: "(\<Sum>i<N. held ((pcs s)[t := Claiming] ! i)) + held (pcs s ! t)
             = (\<Sum>i<N. held (pcs s ! i)) + held Claiming"
    using t len by (intro sum_nth_update) auto
  have a': "(\<Sum>i<N. mset (((seen s)(t := seen s t @ [?r])) i)) = (\<Sum>i<N. mset (seen s i)) + {#?r#}"
    using a by simp
  have h': "(\<Sum>i<N. held (pcs s ! i)) = (\<Sum>i<N. held ((pcs s)[t := Claiming] ! i)) + {#?r#}"
    using h unfolding pc by simp
  have cov': "(\<Sum>i<N. mset (((seen s)(t := seen s t @ [?r])) i)) + (\<Sum>i<N. held ((pcs s)[t := Claiming] ! i))
                = mset [c..<rows]"
    using cov unfolding a' h' by (simp add: ac_simps)
  have fin': "(\<exists>i<N. (pcs s)[t := Claiming] ! i = Finished) \<longrightarrow> c = 0"
    using fin t len by (auto simp: nth_list_update split: if_splits)
  have inv': "dyn_inv work N ?s'"
    unfolding dyn_inv_def
  proof (intro conjI)
    show "length (pcs ?s') = N" using len by simp
    have "consistent work N ?p" using con t by (rule consistent_process_row)
    then show "consistent work N ?s'" by (rule consistent_cong) simp_all
    show "\<exists>c\<le>rows. counter ?s' = of_nat c \<and>
        (\<Sum>t<N. mset (seen ?s' t)) + (\<Sum>t<N. held (pcs ?s' ! t)) = mset [c..<rows] \<and>
        claims ?s' = map of_nat (rev [c..<rows]) \<and>
        ((\<exists>t<N. pcs ?s' ! t = Finished) \<longrightarrow> c = 0)"
    proof (intro exI[of _ c] conjI)
      show "c \<le> rows" by (rule c(1))
      show "counter ?s' = of_nat c" using c(2) by (simp add: process_row_def)
      show "(\<Sum>t<N. mset (seen ?s' t)) + (\<Sum>t<N. held (pcs ?s' ! t)) = mset [c..<rows]"
        unfolding seen' using cov' by simp
      show "claims ?s' = map of_nat (rev [c..<rows])" using cl by (simp add: process_row_def)
      show "(\<exists>t<N. pcs ?s' ! t = Finished) \<longrightarrow> c = 0" using fin' by simp
    qed
  qed
  have w: "(\<Sum>i<N. pc_weight ((pcs s)[t := Claiming] ! i)) + pc_weight (pcs s ! t)
             = (\<Sum>i<N. pc_weight (pcs s ! i)) + pc_weight Claiming"
    using t len by (intro sum_nth_update) auto
  have m: "dyn_measure ?s' < dyn_measure s"
    using w unfolding dyn_measure_def pc by (simp add: len process_row_def)
  show ?thesis using step inv' m by blast
qed

lemma dyn_step_progress:
  assumes inv: "dyn_inv work N s" and N: "N \<le> 2 ^ 31" and t: "t \<in> set (dyn_runnable s)"
  shows "\<exists>s'. sum_dynamic_step work t s = Inr s' \<and> dyn_inv work N s' \<and> dyn_measure s' < dyn_measure s"
proof -
  have len: "length (pcs s) = N" using inv unfolding dyn_inv_def by blast
  then have tN: "t < N" and nf: "pcs s ! t \<noteq> Finished" using t by (simp_all add: dyn_runnable_iff)
  show ?thesis
  proof (cases "pcs s ! t")
    case Claiming
    show ?thesis
    proof (cases "0 < sint (counter s)")
      case True
      show ?thesis using inv tN Claiming True by (rule dyn_step_claim)
    next
      case False
      show ?thesis using inv tN Claiming False N by (rule dyn_step_finish)
    qed
  next
    case (Holding cc)
    show ?thesis using inv tN Holding N by (rule dyn_step_process)
  next
    case Finished
    then show ?thesis using nf by simp
  qed
qed

lemma run_dynamic_total:
  assumes N: "N \<le> 2 ^ 31"
  shows "\<exists>s'. run_dynamic work N sched = Some (Inr s') \<and> dyn_inv work N s' \<and> dyn_runnable s' = []"
  unfolding run_dynamic_def
  by (rule run_threads_total[where I = "dyn_inv work N" and m = dyn_measure])
     (use dyn_init_inv dyn_step_progress[OF _ N] in blast)+

lemma dyn_final:
  assumes inv: "dyn_inv work N s" and fin: "dyn_runnable s = []" and N: "1 \<le> N"
  shows "counter s = 0" "(\<Sum>t<N. mset (seen s t)) = mset [0..<rows]"
    "claims s = map of_nat (rev [0..<rows])" "\<forall>t<N. pcs s ! t = Finished"
proof -
  from inv obtain c where len: "length (pcs s) = N"
    and c: "c \<le> rows" "counter s = of_nat c"
    and cov: "(\<Sum>t<N. mset (seen s t)) + (\<Sum>t<N. held (pcs s ! t)) = mset [c..<rows]"
    and cl: "claims s = map of_nat (rev [c..<rows])"
    and f: "(\<exists>t<N. pcs s ! t = Finished) \<longrightarrow> c = 0"
    unfolding dyn_inv_def by blast
  show all: "\<forall>t<N. pcs s ! t = Finished" using fin len by (simp add: dyn_runnable_Nil)
  then have "pcs s ! 0 = Finished" "0 < N" using N by auto
  then have c0: "c = 0" using f by blast
  show "counter s = 0" using c(2) c0 by simp
  have "(\<Sum>t<N. held (pcs s ! t)) = {#}" using all by simp
  then show "(\<Sum>t<N. mset (seen s t)) = mset [0..<rows]" using cov c0 by simp
  show "claims s = map of_nat (rev [0..<rows])" using cl c0 by simp
qed

section \<open>The threads of a static run\<close>

lemma static_runnable_iff:
  "t \<in> set (static_runnable s) \<longleftrightarrow> t < length (local_row s) \<and> local_row s ! t \<noteq> None"
  by (auto simp: static_runnable_def)

lemma static_runnable_Nil:
  "static_runnable s = [] \<longleftrightarrow> (\<forall>t<length (local_row s). local_row s ! t = None)"
  by (auto simp: static_runnable_def filter_empty_conv)

lemma filter_below_empty:
  fixes t N :: nat
  assumes "t < N"
  shows "filter (\<lambda>x. x mod N = t) [0..<t] = []"
  using assms by (auto simp: filter_empty_conv)

lemma static_init_inv:
  assumes "N + rows \<le> 2 ^ 31"
  shows "static_inv work N (static_init N)"
proof -
  have ok: "static_thread_ok N t (Some (of_nat t)) []" if "t < N" for t
  proof -
    have "[0..<rows] = [0..<t] @ [t..<rows]" if "t \<le> rows"
      using that by (metis le_Suc_ex upt_add_eq_append zero_le)
    then have "filter (\<lambda>x. x mod N = t) [t..<rows] = filter (\<lambda>x. x mod N = t) [0..<rows]" if "t \<le> rows"
      using that filter_below_empty[OF \<open>t < N\<close>] by simp
    moreover have "filter (\<lambda>x. x mod N = t) [0..<rows] = []" if "\<not> t \<le> rows"
      using that \<open>t < N\<close> by (auto simp: filter_empty_conv)
    ultimately have "filter (\<lambda>x. x mod N = t) [t..<rows] = filter (\<lambda>x. x mod N = t) [0..<rows]"
      by (cases "t \<le> rows") auto
    then show ?thesis unfolding static_thread_ok_def using that by (auto intro!: exI[of _ t])
  qed
  show ?thesis
    unfolding static_inv_def using ok
    by (auto simp: static_init_def consistent_def)
qed

lemma static_step_progress:
  assumes inv: "static_inv work N s" and N: "1 \<le> N" "N + rows \<le> 2 ^ 31"
    and t: "t \<in> set (static_runnable s)"
  shows "\<exists>s'. sum_static_step work (of_nat N) t s = Inr s' \<and> static_inv work N s' \<and>
              static_measure s' < static_measure s"
proof -
  have len: "length (local_row s) = N" and con: "consistent work N s"
    and oks: "\<forall>t<N. static_thread_ok N t (local_row s ! t) (seen s t)"
    using inv unfolding static_inv_def by blast+
  have tN: "t < N" using t len by (simp add: static_runnable_iff)
  obtain row where lr: "local_row s ! t = Some row" using t by (auto simp: static_runnable_iff)
  have "static_thread_ok N t (Some row) (seen s t)" using oks tN lr by auto
  then obtain r where r: "row = of_nat r" "r mod N = t" "r < rows + N"
    and sn: "seen s t @ filter (\<lambda>x. x mod N = t) [r..<rows] = filter (\<lambda>x. x mod N = t) [0..<rows]"
    unfolding static_thread_ok_def by auto
  have t31: "t < 2 ^ 31" and r31: "r < 2 ^ 31" using tN N r(3) by auto
  have v: "valid_tid (word_of_nat t) s"
    using con tN t31 by (simp add: valid_tid_of_nat consistent_def)
  have sr: "sint row = int r" unfolding r(1) using r31 by (rule sint32_of_nat)
  have st: "sint (word_of_nat t :: 32 word) = int t" using t31 by (rule sint32_of_nat)
  have ur: "unat row = r" unfolding r(1) using r31 by (rule unat32_of_nat)
  show ?thesis
  proof (cases "r < rows")
    case False
    let ?s' = "s\<lparr>local_row := (local_row s)[t := None]\<rparr>"
    have "static_iter work (word_of_nat t) (of_nat N) row s = Inr (None, s)"
      using v sr False by (intro static_iter_stop) auto
    then have step: "sum_static_step work (of_nat N) t s = Inr ?s'"
      using lr by (simp add: sum_static_step_def)
    have "seen s t = filter (\<lambda>x. x mod N = t) [0..<rows]" using sn False by simp
    then have ok': "\<forall>i<N. static_thread_ok N i ((local_row s)[t := None] ! i) (seen s i)"
      using oks len tN by (auto simp: nth_list_update static_thread_ok_def)
    have inv': "static_inv work N ?s'"
      unfolding static_inv_def
    proof (intro conjI)
      show "length (local_row ?s') = N" using len by simp
      show "consistent work N ?s'" using con by (rule consistent_cong) simp_all
      show "\<forall>t<N. static_thread_ok N t (local_row ?s' ! t) (seen ?s' t)" using ok' by simp
    qed
    have w: "(\<Sum>i<N. row_weight (rows + N) ((local_row s)[t := None] ! i)) + row_weight (rows + N) (local_row s ! t)
             = (\<Sum>i<N. row_weight (rows + N) (local_row s ! i)) + row_weight (rows + N) None"
      using tN len by (intro sum_nth_update) auto
    have m: "static_measure ?s' < static_measure s"
      using w unfolding static_measure_def lr by (simp add: len)
    show ?thesis using step inv' m by blast
  next
    case True
    let ?p = "process_row work t r s"
    let ?s' = "?p\<lparr>local_row := (local_row s)[t := Some (of_nat (r + N))]\<rparr>"
    have "static_iter work (word_of_nat t) (of_nat N) row s = Inr (Some (row + of_nat N), ?p)"
      using static_iter_next[OF v, of row work "of_nat N"] sr st True by simp
    then have step: "sum_static_step work (of_nat N) t s = Inr ?s'"
      using lr r(1) by (simp add: sum_static_step_def process_row_def)
    have seen': "seen ?s' = (seen s)(t := seen s t @ [r])" by (simp add: process_row_def)
    have "filter (\<lambda>x. x mod N = t) [r..<rows] = r # filter (\<lambda>x. x mod N = t) [r + N..<rows]"
      using r(2) _ True by (rule filter_stride_step) (use N in simp)
    then have "(seen s t @ [r]) @ filter (\<lambda>x. x mod N = t) [r + N..<rows] = filter (\<lambda>x. x mod N = t) [0..<rows]"
      using sn by simp
    then have okt: "static_thread_ok N t (Some (of_nat (r + N))) (seen s t @ [r])"
      unfolding static_thread_ok_def using r(2) True by (auto intro!: exI[of _ "r + N"])
    have ok': "\<forall>i<N. static_thread_ok N i ((local_row s)[t := Some (of_nat (r + N))] ! i)
                 (((seen s)(t := seen s t @ [r])) i)"
      using oks okt len tN by (auto simp: nth_list_update)
    have inv': "static_inv work N ?s'"
      unfolding static_inv_def
    proof (intro conjI)
      show "length (local_row ?s') = N" using len by simp
      have "consistent work N ?p" using con tN by (rule consistent_process_row)
      then show "consistent work N ?s'" by (rule consistent_cong) simp_all
      show "\<forall>t<N. static_thread_ok N t (local_row ?s' ! t) (seen ?s' t)"
        unfolding seen' using ok' by simp
    qed
    have w: "(\<Sum>i<N. row_weight (rows + N) ((local_row s)[t := Some (of_nat (r + N))] ! i))
               + row_weight (rows + N) (local_row s ! t)
             = (\<Sum>i<N. row_weight (rows + N) (local_row s ! i)) + row_weight (rows + N) (Some (of_nat (r + N)))"
      using tN len by (intro sum_nth_update) auto
    have "r + N < 2 ^ 31" using True N by simp
    then have u': "unat (word_of_nat (r + N) :: 32 word) = r + N" by (rule unat32_of_nat)
    have "rows + N - (r + N) < rows + N - r" using True N by simp
    then have m: "static_measure ?s' < static_measure s"
      using w unfolding static_measure_def lr by (simp add: len process_row_def u' ur del: of_nat_add)
    show ?thesis using step inv' m by blast
  qed
qed

lemma run_static_total:
  assumes N: "1 \<le> N" "N + rows \<le> 2 ^ 31"
  shows "\<exists>s'. run_static work N sched = Some (Inr s') \<and> static_inv work N s' \<and> static_runnable s' = []"
  unfolding run_static_def
  by (rule run_threads_total[where I = "static_inv work N" and m = static_measure])
     (use static_init_inv[OF N(2)] static_step_progress[OF _ N] in blast)+

lemma residue_partition:
  fixes N :: nat
  assumes "0 < N"
  shows "(\<Sum>t<N. mset (filter (\<lambda>x. x mod N = t) xs)) = mset xs"
proof (induction xs)
  case Nil
  then show ?case by simp
next
  case (Cons x xs)
  have "(\<Sum>t<N. mset (filter (\<lambda>x. x mod N = t) (x # xs)))
          = (\<Sum>t<N. (if x mod N = t then {#x#} else {#}) + mset (filter (\<lambda>x. x mod N = t) xs))"
    by (intro sum.cong) auto
  also have "\<dots> = (\<Sum>t<N. if x mod N = t then {#x#} else {#}) + mset xs"
    using Cons.IH by (simp add: sum.distrib)
  also have "(\<Sum>t<N. if x mod N = t then {#x#} else {#}) = {#x#}"
    using assms by (simp add: sum.delta')
  finally show ?case by simp
qed

lemma static_final:
  assumes inv: "static_inv work N s" and fin: "static_runnable s = []" and N: "1 \<le> N"
  shows "(\<Sum>t<N. mset (seen s t)) = mset [0..<rows]"
    "\<forall>t<N. seen s t = filter (\<lambda>x. x mod N = t) [0..<rows]"
proof -
  have len: "length (local_row s) = N"
    and oks: "\<forall>t<N. static_thread_ok N t (local_row s ! t) (seen s t)"
    using inv unfolding static_inv_def by blast+
  have "\<forall>t<N. local_row s ! t = None" using fin len by (simp add: static_runnable_Nil)
  then show a: "\<forall>t<N. seen s t = filter (\<lambda>x. x mod N = t) [0..<rows]"
    using oks by (auto simp: static_thread_ok_def)
  have "(\<Sum>t<N. mset (seen s t)) = (\<Sum>t<N. mset (filter (\<lambda>x. x mod N = t) [0..<rows]))"
    using a by (intro sum.cong) auto
  then show "(\<Sum>t<N. mset (seen s t)) = mset [0..<rows]"
    using residue_partition[of N "[0..<rows]"] N by simp
qed

section \<open>The totals\<close>

lemma fold_pair_sums:
  fixes a :: "'a::comm_monoid_add" and b :: "'b::comm_monoid_add"
  shows "fold (\<lambda>i (x, y). (x + f i, y + g i)) xs (a, b)
           = (a + sum_list (map f xs), b + sum_list (map g xs))"
  by (induction xs arbitrary: a b) (simp_all add: add.assoc)

lemma aggregate_sums:
  assumes "N \<le> length (tcount st)" "N \<le> length (sum_vec st)"
  shows "aggregate N st = Inr (\<Sum>i<N. tcount st ! i, \<Sum>i<N. sum_vec st ! i)"
  using assms unfolding aggregate_def fold_pair_sums
  by (simp add: interv_sum_list_conv_sum_set_nat atLeast0LessThan)

lemma sum_list_over_workers:
  fixes g :: "nat \<Rightarrow> 'a::comm_monoid_add" and N :: nat
  shows "(\<Sum>t<N. sum_list (map g (f t))) = sum_mset (image_mset g (\<Sum>t<N. mset (f t)))"
proof (induction N)
  case 0
  then show ?case by simp
next
  case (Suc N)
  have "sum_list (map g (f N)) = sum_mset (image_mset g (mset (f N)))"
    by (metis mset_map sum_mset_sum_list)
  then show ?case using Suc by (simp add: ac_simps)
qed

lemma row_total_int: "row_total work r = word_of_int (\<Sum>c<cols. sint (work r c))"
  by (simp add: row_total_def)

lemma matrix_total_word:
  "(\<Sum>r<rows. row_total work r) = (word_of_int (matrix_total work) :: 64 word)"
  by (simp add: matrix_total_def row_total_def)

lemma aggregate_covered:
  assumes con: "consistent work N st" and cov: "(\<Sum>t<N. mset (seen st t)) = mset [0..<rows]"
  shows "aggregate N st = Inr (of_nat rows, word_of_int (matrix_total work))"
proof -
  have len: "N \<le> length (tcount st)" "N \<le> length (sum_vec st)"
    and tc: "\<And>t. t < N \<Longrightarrow> tcount st ! t = of_nat (length (seen st t))"
    and sv: "\<And>t. t < N \<Longrightarrow> sum_vec st ! t = sum_list (map (row_total work) (seen st t))"
    using con unfolding consistent_def by auto
  have "(\<Sum>i<N. tcount st ! i) = (\<Sum>i<N. of_nat (length (seen st i)))"
    using tc by (intro sum.cong) auto
  also have "\<dots> = of_nat (\<Sum>i<N. size (mset (seen st i)))" by simp
  also have "(\<Sum>i<N. size (mset (seen st i))) = size (\<Sum>i<N. mset (seen st i))" by simp
  also have "\<dots> = rows" unfolding cov by simp
  finally have a: "(\<Sum>i<N. tcount st ! i) = of_nat rows" .
  have "(\<Sum>i<N. sum_vec st ! i) = (\<Sum>i<N. sum_list (map (row_total work) (seen st i)))"
    using sv by (intro sum.cong) auto
  also have "\<dots> = sum_mset (image_mset (row_total work) (mset [0..<rows]))"
    unfolding sum_list_over_workers cov ..
  also have "\<dots> = sum_list (map (row_total work) [0..<rows])"
    by (metis mset_map sum_mset_sum_list)
  also have "\<dots> = (\<Sum>r<rows. row_total work r)"
    by (simp add: interv_sum_list_conv_sum_set_nat atLeast0LessThan)
  finally have b: "(\<Sum>i<N. sum_vec st ! i) = word_of_int (matrix_total work)"
    unfolding matrix_total_word .
  show ?thesis unfolding aggregate_sums[OF len] a b ..
qed

lemma sint_rows: "sint (of_nat rows :: 32 word) = int rows"
  using rows_bound(1) by (rule sint32_of_nat)

lemma matrix_total_no_wrap:
  assumes "\<forall>r<rows. \<forall>c<cols. 0 \<le> sint (work r c)"
  shows "uint (word_of_int (matrix_total work) :: 64 word) = matrix_total work"
proof -
  have nonneg: "0 \<le> matrix_total work"
    unfolding matrix_total_def using assms by (intro sum_nonneg) auto
  have "(\<Sum>c<cols. sint (work r c)) \<le> of_nat (card {..<cols}) * 2 ^ 31" for r
    by (intro sum_bounded_above) (use sint32_range(2) less_imp_le in blast)
  then have row: "(\<Sum>c<cols. sint (work r c)) \<le> int cols * 2 ^ 31" for r by simp
  have "matrix_total work \<le> of_nat (card {..<rows}) * (int cols * 2 ^ 31)"
    unfolding matrix_total_def by (intro sum_bounded_above) (use row in blast)
  then have "matrix_total work \<le> 100000 * 2 ^ 31" by (simp add: rows_def cols_def)
  then have "matrix_total work < 2 ^ 64" by simp
  then show ?thesis using nonneg by (simp add: uint_word_of_int)
qed

lemma covered_once:
  fixes N n :: nat
  assumes cov: "(\<Sum>t<N. mset (f t)) = mset [0..<n]"
  shows "\<forall>r<n. \<exists>!t. t < N \<and> r \<in> set (f t)" and "\<forall>t<N. distinct (f t)"
proof -
  have cnt: "(\<Sum>t<N. count (mset (f t)) r) = (if r < n then 1 else 0)" for r
  proof -
    have "(\<Sum>t<N. count (mset (f t)) r) = count (mset [0..<n]) r"
      unfolding cov[symmetric] by (simp add: count_sum)
    also have "\<dots> = (if r < n then 1 else 0)"
      using distinct_upt[of 0 n] unfolding distinct_count_atmost_1 by simp
    finally show ?thesis .
  qed
  show "\<forall>r<n. \<exists>!t. t < N \<and> r \<in> set (f t)"
  proof (intro allI impI)
    fix r assume "r < n"
    then have "(\<Sum>t\<in>{..<N}. count (mset (f t)) r) = 1" using cnt by simp
    then obtain a where a: "a \<in> {..<N}" "count (mset (f a)) r = 1"
      "\<forall>b\<in>{..<N}. a \<noteq> b \<longrightarrow> count (mset (f b)) r = 0"
      using sum_eq_1_iff[of "{..<N}" "\<lambda>t. count (mset (f t)) r"] by auto
    show "\<exists>!t. t < N \<and> r \<in> set (f t)"
    proof (rule ex1I[of _ a])
      have "count_list (f a) r \<noteq> 0" using a(2) by (simp add: count_mset)
      then have "r \<in> set (f a)" by (simp add: count_list_0_iff)
      then show "a < N \<and> r \<in> set (f a)" using a(1) by simp
    next
      fix t assume t: "t < N \<and> r \<in> set (f t)"
      then have "count_list (f t) r \<noteq> 0" by (simp add: count_list_0_iff)
      then have "count (mset (f t)) r \<noteq> 0" by (simp add: count_mset)
      then show "t = a" using a(3) t by auto
    qed
  qed
  show "\<forall>t<N. distinct (f t)"
  proof (intro allI impI)
    fix t assume t: "t < N"
    have "count (mset (f t)) r \<le> 1" for r
    proof -
      have "count (mset (f t)) r \<le> (\<Sum>t\<in>{..<N}. count (mset (f t)) r)"
        by (rule member_le_sum) (use t in simp_all)
      moreover have "(\<Sum>t\<in>{..<N}. count (mset (f t)) r) \<le> 1" unfolding cnt by simp
      ultimately show ?thesis by (rule order_trans)
    qed
    then have le: "count_list (f t) r \<le> 1" for r by (simp add: count_mset)
    show "distinct (f t)"
      unfolding distinct_count_atmost_1 count_mset
    proof (intro allI)
      fix r
      show "count_list (f t) r = (if r \<in> set (f t) then 1 else 0)"
        using le[of r] count_list_0_iff[of "f t" r] by (cases "r \<in> set (f t)") auto
    qed
  qed
qed

section \<open>The whole program\<close>

lemma finish_static:
  assumes N: "1 \<le> N" "N + rows \<le> 2 ^ 31"
  shows "finish N (run_static work N sched)
           = Some (Inr (Completed (of_nat rows) (word_of_int (matrix_total work))))"
proof -
  obtain s where s: "run_static work N sched = Some (Inr s)" "static_inv work N s" "static_runnable s = []"
    using run_static_total[OF N] by blast
  have "consistent work N s" using s(2) unfolding static_inv_def by blast
  then have "aggregate N s = Inr (of_nat rows, word_of_int (matrix_total work))"
    using static_final(1)[OF s(2,3) N(1)] by (rule aggregate_covered)
  then show ?thesis unfolding s(1) finish_def by simp
qed

lemma finish_dynamic:
  assumes N: "1 \<le> N" "N \<le> 2 ^ 31"
  shows "finish N (run_dynamic work N sched)
           = Some (Inr (Completed (of_nat rows) (word_of_int (matrix_total work))))"
proof -
  obtain s where s: "run_dynamic work N sched = Some (Inr s)" "dyn_inv work N s" "dyn_runnable s = []"
    using run_dynamic_total[OF N(2)] by blast
  have "consistent work N s" using s(2) unfolding dyn_inv_def by blast
  then have "aggregate N s = Inr (of_nat rows, word_of_int (matrix_total work))"
    using dyn_final(2)[OF s(2,3) N(1)] by (rule aggregate_covered)
  then show ?thesis unfolding s(1) finish_def by simp
qed

lemma finish_no_threads:
  "finish 0 (run_static work 0 sched) = Some (Inr (Completed 0 0))"
  "finish 0 (run_dynamic work 0 sched) = Some (Inr (Completed 0 0))"
proof -
  have "static_runnable (static_init 0) = []" by (simp add: static_runnable_def static_init_def)
  then have "run_static work 0 sched = Some (Inr (static_init 0))"
    unfolding run_static_def by (subst run_threads.simps) simp
  then show "finish 0 (run_static work 0 sched) = Some (Inr (Completed 0 0))"
    by (simp add: finish_def aggregate_def)
  have "dyn_runnable (dyn_init 0) = []" by (simp add: dyn_runnable_def dyn_init_def)
  then have "run_dynamic work 0 sched = Some (Inr (dyn_init 0))"
    unfolding run_dynamic_def by (subst run_threads.simps) simp
  then show "finish 0 (run_dynamic work 0 sched) = Some (Inr (Completed 0 0))"
    by (simp add: finish_def aggregate_def)
qed

lemma main_parsed:
  assumes "getopt_loop maxThreads opts False 2 = Some (dFlag, limiter)"
  shows "main maxThreads opts work sched =
           (if dFlag then finish (unat limiter) (run_dynamic work (unat limiter) sched)
            else finish (unat limiter) (run_static work (unat limiter) sched))"
  using assms by (simp add: main_def)

lemma main_usage:
  assumes "Opt_other \<in> set opts"
  shows "main maxThreads opts work sched = Some (Inr Usage_exit)"
  using getopt_loop_none[OF assms] by (simp add: main_def)

lemma main_totals:
  assumes g: "getopt_loop maxThreads opts False 2 = Some (dFlag, limiter)"
    and N: "1 \<le> unat limiter" "unat limiter + rows \<le> 2 ^ 31"
  shows "main maxThreads opts work sched
           = Some (Inr (Completed (of_nat rows) (word_of_int (matrix_total work))))"
proof -
  have "unat limiter \<le> 2 ^ 31" using N(2) by simp
  then show ?thesis
    unfolding main_parsed[OF g] using finish_static[OF N] finish_dynamic[OF N(1)] by simp
qed

lemma main_completes:
  assumes g: "getopt_loop maxThreads opts False 2 = Some (dFlag, limiter)"
    and N: "unat limiter + rows \<le> 2 ^ 31"
  shows "\<exists>total_work gross_sum. main maxThreads opts work sched = Some (Inr (Completed total_work gross_sum))"
proof (cases "unat limiter = 0")
  case True
  show ?thesis unfolding main_parsed[OF g] True using finish_no_threads by simp
next
  case False
  then have "1 \<le> unat limiter" by simp
  then show ?thesis using main_totals[OF g _ N] by simp
qed

lemma unat_max_word:
  fixes a b :: "32 word"
  shows "unat (max a b) = max (unat a) (unat b)"
  by (simp add: max_def word_le_nat_alt)

section \<open>Coverage and totals\<close>

text \<open>
  C1. For every thread count \<open>N\<close> from 1 to \<open>rows\<close> and under every scheduler, the static
  run and the dynamic run both end with every thread returned, and the row indices the
  workers have processed, summed as multisets over the workers, are exactly
  \<open>0, \<dots>, rows - 1\<close>: every row is processed by exactly one worker, and no worker
  processes a row twice.
\<close>

theorem coverage:
  assumes "1 \<le> N" and "N \<le> rows"
  shows "(\<exists>s. run_static work N sched_s = Some (Inr s) \<and>
              (\<Sum>t<N. mset (seen s t)) = mset [0..<rows] \<and>
              (\<forall>r<rows. \<exists>!t. t < N \<and> r \<in> set (seen s t)) \<and>
              (\<forall>t<N. distinct (seen s t))) \<and>
         (\<exists>s. run_dynamic work N sched_d = Some (Inr s) \<and>
              (\<Sum>t<N. mset (seen s t)) = mset [0..<rows] \<and>
              (\<forall>r<rows. \<exists>!t. t < N \<and> r \<in> set (seen s t)) \<and>
              (\<forall>t<N. distinct (seen s t)))"
proof
  have b: "N + rows \<le> 2 ^ 31" "N \<le> 2 ^ 31" using assms(2) by (simp_all add: rows_def)
  obtain s where s: "run_static work N sched_s = Some (Inr s)" "static_inv work N s" "static_runnable s = []"
    using run_static_total[OF assms(1) b(1)] by blast
  have cov: "(\<Sum>t<N. mset (seen s t)) = mset [0..<rows]"
    using s(2,3) assms(1) by (rule static_final(1))
  show "\<exists>s. run_static work N sched_s = Some (Inr s) \<and>
              (\<Sum>t<N. mset (seen s t)) = mset [0..<rows] \<and>
              (\<forall>r<rows. \<exists>!t. t < N \<and> r \<in> set (seen s t)) \<and>
              (\<forall>t<N. distinct (seen s t))"
    using s(1) cov covered_once[OF cov] by blast
  obtain d where d: "run_dynamic work N sched_d = Some (Inr d)" "dyn_inv work N d" "dyn_runnable d = []"
    using run_dynamic_total[OF b(2)] by blast
  have cov: "(\<Sum>t<N. mset (seen d t)) = mset [0..<rows]"
    using d(2,3) assms(1) by (rule dyn_final(2))
  show "\<exists>s. run_dynamic work N sched_d = Some (Inr s) \<and>
              (\<Sum>t<N. mset (seen s t)) = mset [0..<rows] \<and>
              (\<forall>r<rows. \<exists>!t. t < N \<and> r \<in> set (seen s t)) \<and>
              (\<forall>t<N. distinct (seen s t))"
    using d(1) cov covered_once[OF cov] by blast
qed

theorem coverage_witness:
  "(1 :: nat) \<le> 2 \<and> 2 \<le> rows \<and>
   (\<exists>s. run_static (\<lambda>r c. 1) 2 (\<lambda>k. k) = Some (Inr s) \<and>
        (\<Sum>t<2. mset (seen s t)) = mset [0..<rows]) \<and>
   (\<exists>s. run_dynamic (\<lambda>r c. 1) 2 (\<lambda>k. k) = Some (Inr s) \<and>
        (\<Sum>t<2. mset (seen s t)) = mset [0..<rows])"
proof -
  have h: "(1 :: nat) \<le> 2" "2 \<le> rows" by (simp_all add: rows_def)
  show ?thesis using coverage[OF h, of "\<lambda>r c. 1" "\<lambda>k. k" "\<lambda>k. k"] h by blast
qed

text \<open>
  C2. After all threads have returned and the results of the workers are summed,
  \<open>total_work\<close> is \<open>rows\<close> and \<open>gross_sum\<close> is the sum of all \<open>rows * cols\<close> elements of
  the matrix, for both strategies, every thread count \<open>N \<ge> 1\<close> (with \<open>N + rows \<le> 2^31\<close>,
  which holds for all \<open>N \<le> rows\<close>) and every scheduler, and so for \<open>main\<close> whenever the
  option loop leaves such a thread count. \<open>gross_sum\<close> is a \<open>uint64_t\<close>: it is the sum
  modulo \<open>2^64\<close>, and the sum itself when no element is negative, as with \<open>rand()\<close>.
\<close>

theorem totals:
  assumes "1 \<le> N" and "N + rows \<le> 2 ^ 31"
  shows "finish N (run_static work N sched_s)
           = Some (Inr (Completed (of_nat rows) (word_of_int (matrix_total work)))) \<and>
         finish N (run_dynamic work N sched_d)
           = Some (Inr (Completed (of_nat rows) (word_of_int (matrix_total work)))) \<and>
         (\<forall>maxThreads opts dFlag limiter sched.
            getopt_loop maxThreads opts False 2 = Some (dFlag, limiter) \<and> unat limiter = N \<longrightarrow>
            main maxThreads opts work sched
              = Some (Inr (Completed (of_nat rows) (word_of_int (matrix_total work))))) \<and>
         sint (of_nat rows :: 32 word) = int rows \<and>
         ((\<forall>r<rows. \<forall>c<cols. 0 \<le> sint (work r c)) \<longrightarrow>
            uint (word_of_int (matrix_total work) :: 64 word) = matrix_total work)"
proof -
  have d: "N \<le> 2 ^ 31" using assms(2) by simp
  show ?thesis
    using finish_static[OF assms] finish_dynamic[OF assms(1) d] main_totals assms sint_rows
      matrix_total_no_wrap
    by blast
qed

theorem totals_witness:
  "(1 :: nat) \<le> 2 \<and> 2 + rows \<le> 2 ^ 31 \<and>
   getopt_loop 8 [Opt_d] False 2 = Some (True, 2) \<and> unat (2 :: 32 word) = 2 \<and>
   finish 2 (run_static (\<lambda>r c. 1) 2 (\<lambda>k. k)) = Some (Inr (Completed 1000 100000)) \<and>
   finish 2 (run_dynamic (\<lambda>r c. 1) 2 (\<lambda>k. k)) = Some (Inr (Completed 1000 100000)) \<and>
   main 8 [Opt_d] (\<lambda>r c. 1) (\<lambda>k. k) = Some (Inr (Completed 1000 100000)) \<and>
   uint (100000 :: 64 word) = matrix_total (\<lambda>r c. 1)"
proof -
  have h: "(1 :: nat) \<le> 2" "2 + rows \<le> 2 ^ 31" by (simp_all add: rows_def)
  have g: "getopt_loop 8 [Opt_d] False 2 = Some (True, 2)" "unat (2 :: 32 word) = 2" by simp_all
  have p: "\<forall>r<rows. \<forall>c<cols. 0 \<le> sint ((\<lambda>r c. 1 :: 32 word) r c)" by simp
  have m: "matrix_total (\<lambda>r c. 1) = 100000" by (simp add: matrix_total_def rows_def cols_def)
  have r: "(of_nat rows :: 32 word) = 1000" by (simp add: rows_def)
  have w: "(word_of_int 100000 :: 64 word) = 100000" by simp
  note T = totals[OF h, of "\<lambda>r c. 1" "\<lambda>k. k" "\<lambda>k. k", unfolded m r w]
  have a: "main 8 [Opt_d] (\<lambda>r c. 1) (\<lambda>k. k) = Some (Inr (Completed 1000 100000))"
    using T g by blast
  have "uint (100000 :: 64 word) = 100000" using T p by blast
  then have u: "uint (100000 :: 64 word) = matrix_total (\<lambda>r c. 1)" unfolding m .
  show ?thesis using T h g a u by simp
qed

section \<open>The static worker, both strategies, termination\<close>

lemma residue_iff:
  fixes t N x :: nat
  assumes "t < N"
  shows "x mod N = t \<longleftrightarrow> (\<exists>k. x = t + k * N)"
proof
  assume "x mod N = t"
  then have "x = t + (x div N) * N" using div_mult_mod_eq[of x N] by simp
  then show "\<exists>k. x = t + k * N" ..
next
  assume "\<exists>k. x = t + k * N"
  then show "x mod N = t" using assms by auto
qed

lemma strided_filter:
  fixes t N :: nat
  assumes "t < N"
  shows "filter (\<lambda>x. x mod N = t) xs = filter (\<lambda>r. \<exists>k. r = t + k * N) xs"
  using residue_iff[OF assms] by simp

lemma sum_static_strided:
  assumes N: "1 \<le> N" "N + rows \<le> 2 ^ 31" and t: "t < N"
    and len: "t < length (tcount st)" "t < length (sum_vec st)"
  shows "sum_static work (of_nat t) (of_nat N) st =
     Some (Inr (st\<lparr>tcount := (tcount st)[t := tcount st ! t + of_nat (length (filter (\<lambda>x. x mod N = t) [0..<rows]))],
        sum_vec := (sum_vec st)[t := sum_vec st ! t + sum_list (map (row_total work) (filter (\<lambda>x. x mod N = t) [0..<rows]))],
        seen := (seen st)(t := seen st t @ filter (\<lambda>x. x mod N = t) [0..<rows])\<rparr>))"
proof -
  have e: "filter (\<lambda>x. x mod N = t) [0..<t] = []" using t by (rule filter_below_empty)
  have f: "filter (\<lambda>x. x mod N = t) [t..<rows] = filter (\<lambda>x. x mod N = t) [0..<rows]"
  proof (cases "t \<le> rows")
    case True
    then have "[0..<rows] = [0..<t] @ [t..<rows]" by (metis le_Suc_ex upt_add_eq_append zero_le)
    then show ?thesis using e by simp
  next
    case False
    then have "filter (\<lambda>x. x mod N = t) [0..<rows] = []" using t by (auto simp: filter_empty_conv)
    then show ?thesis using False by simp
  qed
  have "sum_static work (of_nat t) (of_nat N) st
          = Some (Inr (fold (process_row work t) (filter (\<lambda>x. x mod N = t) [t..<rows]) st))"
    unfolding sum_static_def using N t len by (intro static_loop_strided) auto
  then show ?thesis unfolding f fold_process_row[OF len] .
qed

text \<open>
  The threads of a static run end, each at its own index, with what \<open>sum_static\<close> on
  its own computes from the vectors as they are when the threads are created.
\<close>

lemma run_static_workers:
  assumes N: "1 \<le> N" "N + rows \<le> 2 ^ 31" and t: "t < N"
  shows "\<exists>s st'. run_static work N sched = Some (Inr s) \<and>
           sum_static work (of_nat t) (of_nat N)
             \<lparr>tcount = replicate N 0, sum_vec = replicate N 0, seen = \<lambda>t. []\<rparr> = Some (Inr st') \<and>
           tcount s ! t = tcount st' ! t \<and> sum_vec s ! t = sum_vec st' ! t \<and> seen s t = seen st' t"
proof -
  let ?st = "\<lparr>tcount = replicate N (0 :: 32 word), sum_vec = replicate N (0 :: 64 word),
               seen = \<lambda>t :: nat. [] :: nat list\<rparr>"
  let ?R = "filter (\<lambda>x. x mod N = t) [0..<rows]"
  obtain s where s: "run_static work N sched = Some (Inr s)" "static_inv work N s" "static_runnable s = []"
    using run_static_total[OF N] by blast
  have sn: "seen s t = ?R" using static_final(2)[OF s(2,3) N(1)] t by blast
  have "consistent work N s" using s(2) unfolding static_inv_def by blast
  then have c: "tcount s ! t = of_nat (length ?R)" "sum_vec s ! t = sum_list (map (row_total work) ?R)"
    unfolding consistent_def sn[symmetric] using t by auto
  have len: "t < length (tcount ?st)" "t < length (sum_vec ?st)" using t by simp_all
  note w = sum_static_strided[OF N t len, of work]
  show ?thesis
    apply (intro exI conjI)
        apply (rule s(1))
       apply (rule w)
    using c sn t by simp_all
qed

text \<open>
  C4. For a thread count \<open>N \<ge> 1\<close> and \<open>tid = t < N\<close>, \<open>sum_static\<close> returns and has
  changed the state at index \<open>t\<close> only: the rows it has summed are \<open>t, t + N, t + 2N, \<dots>\<close>
  below \<open>rows\<close>, in this order; \<open>sum[t]\<close> has grown by the \<open>cols\<close> elements of each of
  these rows, and \<open>tcount[t]\<close> by one for each of them.
\<close>

theorem static_worker_rows:
  assumes "1 \<le> N" and "N + rows \<le> 2 ^ 31" and "t < N"
    and "t < length (tcount st)" and "t < length (sum_vec st)"
  shows "(let R = filter (\<lambda>r. \<exists>k. r = t + k * N) [0..<rows] in
          sum_static work (of_nat t) (of_nat N) st =
            Some (Inr (st\<lparr>tcount := (tcount st)[t := tcount st ! t + of_nat (length R)],
                           sum_vec := (sum_vec st)[t := sum_vec st ! t + (\<Sum>r\<leftarrow>R. \<Sum>c<cols. scast (work r c))],
                           seen := (seen st)(t := seen st t @ R)\<rparr>)))"
  using sum_static_strided[OF assms, of work]
  unfolding Let_def strided_filter[OF assms(3)] row_total_def .


theorem static_worker_rows_witness:
  "(1 :: nat) \<le> 2 \<and> 2 + rows \<le> 2 ^ 31 \<and> (1 :: nat) < 2 \<and>
   1 < length (tcount \<lparr>tcount = [0, 0], sum_vec = [0, 0], seen = \<lambda>t. []\<rparr>) \<and>
   1 < length (sum_vec \<lparr>tcount = [0, 0], sum_vec = [0, 0], seen = \<lambda>t. []\<rparr>) \<and>
   (\<exists>st'. sum_static (\<lambda>r c. 1) 1 2 \<lparr>tcount = [0, 0], sum_vec = [0, 0], seen = \<lambda>t. []\<rparr> = Some (Inr st') \<and>
          seen st' 1 = filter (\<lambda>r. \<exists>k. r = 1 + k * 2) [0..<rows] \<and> seen st' 0 = [] \<and>
          tcount st' ! 0 = 0 \<and> sum_vec st' ! 0 = 0)"
proof -
  have h: "(1 :: nat) \<le> 2" "2 + rows \<le> 2 ^ 31" "(1 :: nat) < 2"
    "1 < length (tcount \<lparr>tcount = [0, 0], sum_vec = [0, 0], seen = \<lambda>t. []\<rparr>)"
    "1 < length (sum_vec \<lparr>tcount = [0, 0], sum_vec = [0, 0], seen = \<lambda>t. []\<rparr>)"
    by (simp_all add: rows_def)
  show ?thesis
    using static_worker_rows[OF h, of "\<lambda>r c. 1"] h by (simp add: Let_def)
qed

lemma getopt_loop_dflag:
  "getopt_loop m os d l = Some (d', l') \<Longrightarrow> getopt_loop m os True l = Some (True, l')"
  by (induction m os d l arbitrary: d' l' rule: getopt_loop.induct) simp_all

text \<open>
  C5. For the same matrix and the same thread count, the static run and the dynamic run
  give the same \<open>total_work\<close> and the same \<open>gross_sum\<close>, whatever the two schedulers do;
  \<open>main\<close> with and without \<open>-d\<close> ends with the same result.
\<close>

theorem strategies_agree:
  assumes "1 \<le> N" and "N + rows \<le> 2 ^ 31"
  shows "finish N (run_static work N sched_s) = finish N (run_dynamic work N sched_d) \<and>
         (\<exists>total_work gross_sum.
            finish N (run_static work N sched_s) = Some (Inr (Completed total_work gross_sum))) \<and>
         (\<forall>maxThreads opts limiter.
            getopt_loop maxThreads opts False 2 = Some (False, limiter) \<and> unat limiter = N \<longrightarrow>
            getopt_loop maxThreads (Opt_d # opts) False 2 = Some (True, limiter) \<and>
            main maxThreads opts work sched_s = main maxThreads (Opt_d # opts) work sched_d)"
proof -
  have d: "N \<le> 2 ^ 31" using assms(2) by simp
  have a: "finish N (run_static work N sched_s)
             = Some (Inr (Completed (of_nat rows) (word_of_int (matrix_total work))))"
    using assms by (rule finish_static)
  have b: "finish N (run_dynamic work N sched_d)
             = Some (Inr (Completed (of_nat rows) (word_of_int (matrix_total work))))"
    using assms(1) d by (rule finish_dynamic)
  have c: "getopt_loop maxThreads (Opt_d # opts) False 2 = Some (True, limiter) \<and>
           main maxThreads opts work sched_s = main maxThreads (Opt_d # opts) work sched_d"
    if g: "getopt_loop maxThreads opts False 2 = Some (False, limiter)" and u: "unat limiter = N"
    for maxThreads opts limiter
  proof -
    have g': "getopt_loop maxThreads (Opt_d # opts) False 2 = Some (True, limiter)"
      using getopt_loop_dflag[OF g] by simp
    show ?thesis
      using g' main_totals[OF g, of work sched_s] main_totals[OF g', of work sched_d] assms
      unfolding u by simp
  qed
  show ?thesis using a b c by simp
qed

theorem strategies_agree_witness:
  "(1 :: nat) \<le> 2 \<and> 2 + rows \<le> 2 ^ 31 \<and>
   getopt_loop 8 [Opt_t 2] False 2 = Some (False, 2) \<and> unat (2 :: 32 word) = 2 \<and>
   finish 2 (run_static (\<lambda>r c. 1) 2 (\<lambda>k. k)) = finish 2 (run_dynamic (\<lambda>r c. 1) 2 (\<lambda>k. 0)) \<and>
   main 8 [Opt_t 2] (\<lambda>r c. 1) (\<lambda>k. k) = main 8 [Opt_d, Opt_t 2] (\<lambda>r c. 1) (\<lambda>k. 0)"
proof -
  have h: "(1 :: nat) \<le> 2" "2 + rows \<le> 2 ^ 31" by (simp_all add: rows_def)
  have g: "getopt_loop 8 [Opt_t 2] False 2 = Some (False, 2)" "unat (2 :: 32 word) = 2" by simp_all
  note T = strategies_agree[OF h, of "\<lambda>r c. 1" "\<lambda>k. k" "\<lambda>k. 0"]
  have a: "finish 2 (run_static (\<lambda>r c. 1) 2 (\<lambda>k. k)) = finish 2 (run_dynamic (\<lambda>r c. 1) 2 (\<lambda>k. 0))"
    using T by blast
  have b: "main 8 [Opt_t 2] (\<lambda>r c. 1) (\<lambda>k. k) = main 8 [Opt_d, Opt_t 2] (\<lambda>r c. 1) (\<lambda>k. 0)"
    using T g by blast
  show ?thesis by (intro conjI h g a b)
qed

text \<open>
  C6. Both worker loops terminate. For every \<open>tid\<close> and every \<open>num_threads \<ge> 1\<close> the loop
  of \<open>sum_static\<close> ends, and for every \<open>tid\<close> that indexes the vectors (and
  \<open>num_threads + rows \<le> 2^31\<close>, so that \<open>row\<close> cannot overflow) it ends by reaching
  \<open>row \<ge> rows\<close>. With \<open>num_threads = 0\<close> and \<open>tid\<close> below \<open>rows\<close> it never
  ends. A thread of the dynamic strategy that finds the counter not positive returns at
  once, and under every scheduler the dynamic run ends, with the counter at 0 and every
  thread returned.
\<close>

theorem loops_terminate:
  "(1 \<le> sint num_threads \<longrightarrow> (\<exists>y. sum_static work tid num_threads st = Some y)) \<and>
   (valid_tid tid st \<and> 1 \<le> sint num_threads \<and> sint num_threads + int rows \<le> 2 ^ 31 \<longrightarrow>
      (\<exists>st'. sum_static work tid num_threads st = Some (Inr st'))) \<and>
   (valid_tid tid st \<and> 0 \<le> sint tid \<and> sint tid < int rows \<longrightarrow>
      sum_static work tid 0 st = None) \<and>
   (pcs s ! t = Claiming \<and> \<not> 0 < sint (counter s) \<and> valid_tid (of_nat t) s \<longrightarrow>
      sum_dynamic_step work t s = Inr (s\<lparr>pcs := (pcs s)[t := Finished]\<rparr>)) \<and>
   (1 \<le> M \<and> M \<le> 2 ^ 31 \<longrightarrow>
      (\<exists>s'. run_dynamic work M sched = Some (Inr s') \<and> counter s' = 0 \<and>
            (\<forall>t<M. pcs s' ! t = Finished)))"
proof (intro conjI impI)
  assume "1 \<le> sint num_threads"
  then show "\<exists>y. sum_static work tid num_threads st = Some y"
    unfolding sum_static_def by (rule static_loop_terminates)
next
  assume a: "valid_tid tid st \<and> 1 \<le> sint num_threads \<and> sint num_threads + int rows \<le> 2 ^ 31"
  then have "0 \<le> sint tid" by (simp add: valid_tid_def vec_index_def)
  then show "\<exists>st'. sum_static work tid num_threads st = Some (Inr st')"
    unfolding sum_static_def using a by (intro static_loop_returns) simp_all
next
  assume "valid_tid tid st \<and> 0 \<le> sint tid \<and> sint tid < int rows"
  then show "sum_static work tid 0 st = None"
    unfolding sum_static_def by (simp add: static_loop_diverges)
next
  assume "pcs s ! t = Claiming \<and> \<not> 0 < sint (counter s) \<and> valid_tid (of_nat t) s"
  then show "sum_dynamic_step work t s = Inr (s\<lparr>pcs := (pcs s)[t := Finished]\<rparr>)"
    by (simp add: step_claiming_empty)
next
  assume M: "1 \<le> M \<and> M \<le> 2 ^ 31"
  then obtain s' where s': "run_dynamic work M sched = Some (Inr s')" "dyn_inv work M s'" "dyn_runnable s' = []"
    using run_dynamic_total[of M work sched] by blast
  show "\<exists>s'. run_dynamic work M sched = Some (Inr s') \<and> counter s' = 0 \<and> (\<forall>t<M. pcs s' ! t = Finished)"
    using s'(1) dyn_final(1,4)[OF s'(2,3)] M by blast
qed

section \<open>Exit codes and bounds\<close>

theorem loops_terminate_witness:
  "1 \<le> sint (2 :: 32 word) \<and>
   (\<exists>y. sum_static (\<lambda>r c. 1) 0 2 \<lparr>tcount = [0, 0], sum_vec = [0, 0], seen = \<lambda>t. []\<rparr> = Some y) \<and>
   sint (2 :: 32 word) + int rows \<le> 2 ^ 31 \<and>
   (\<exists>st'. sum_static (\<lambda>r c. 1) 0 2 \<lparr>tcount = [0, 0], sum_vec = [0, 0], seen = \<lambda>t. []\<rparr> = Some (Inr st')) \<and>
   valid_tid 0 \<lparr>tcount = [0, 0], sum_vec = [0, 0], seen = \<lambda>t. []\<rparr> \<and>
   0 \<le> sint (0 :: 32 word) \<and> sint (0 :: 32 word) < int rows \<and>
   sum_static (\<lambda>r c. 1) 0 0 \<lparr>tcount = [0, 0], sum_vec = [0, 0], seen = \<lambda>t. []\<rparr> = None \<and>
   pcs ((dyn_init 2)\<lparr>counter := 0\<rparr>) ! 1 = Claiming \<and>
   \<not> 0 < sint (counter ((dyn_init 2)\<lparr>counter := 0\<rparr>)) \<and>
   valid_tid 1 ((dyn_init 2)\<lparr>counter := 0\<rparr>) \<and>
   sum_dynamic_step (\<lambda>r c. 1) 1 ((dyn_init 2)\<lparr>counter := 0\<rparr>)
     = Inr ((dyn_init 2)\<lparr>counter := 0, pcs := [Claiming, Finished]\<rparr>) \<and>
   (2 :: nat) \<le> 2 ^ 31 \<and>
   (\<exists>s'. run_dynamic (\<lambda>r c. 1) 2 (\<lambda>k. k) = Some (Inr s') \<and> counter s' = 0)"
proof -
  let ?st = "\<lparr>tcount = [0, 0], sum_vec = [0 :: 64 word, 0], seen = \<lambda>t :: nat. [] :: nat list\<rparr>"
  let ?s = "(dyn_init 2)\<lparr>counter := 0\<rparr>"
  note T = loops_terminate[where num_threads = 2 and tid = 0 and st = ?st and t = 1
      and s = ?s and M = 2 and sched = "\<lambda>k. k" and work = "\<lambda>r c. 1"]
  have h1: "1 \<le> sint (2 :: 32 word)" by simp
  have h2: "sint (2 :: 32 word) + int rows \<le> 2 ^ 31" by (simp add: rows_def)
  have h3: "valid_tid 0 ?st" "0 \<le> sint (0 :: 32 word)" "sint (0 :: 32 word) < int rows"
    by (simp_all add: valid_tid_def vec_index_def rows_def)
  have h4: "pcs ?s ! 1 = Claiming" "\<not> 0 < sint (counter ?s)" "valid_tid 1 ?s"
    by (simp_all add: dyn_init_def valid_tid_def vec_index_def)
  have h5: "(1 :: nat) \<le> 2" "(2 :: nat) \<le> 2 ^ 31" by simp_all
  have p: "(pcs ?s)[1 := Finished] = [Claiming, Finished]"
    by (simp add: dyn_init_def numeral_2_eq_2)
  have c1: "\<exists>y. sum_static (\<lambda>r c. 1) 0 2 ?st = Some y" using T h1 by blast
  have c2: "\<exists>st'. sum_static (\<lambda>r c. 1) 0 2 ?st = Some (Inr st')" using T h1 h2 h3(1) by blast
  have c3: "sum_static (\<lambda>r c. 1) 0 0 ?st = None" using T h3 by blast
  have c4: "sum_dynamic_step (\<lambda>r c. 1) 1 ?s = Inr ((dyn_init 2)\<lparr>counter := 0, pcs := [Claiming, Finished]\<rparr>)"
    using T h4 p by simp
  have c5: "\<exists>s'. run_dynamic (\<lambda>r c. 1) 2 (\<lambda>k. k) = Some (Inr s') \<and> counter s' = 0"
    using T h5 by blast
  show ?thesis by (intro conjI h1 h2 h3 h4 h5(2) c1 c2 c3 c4 c5)
qed

text \<open>
  C8, as the code has it. When \<open>getopt\<close> reports an option error (it returns something
  other than \<open>'d'\<close> and \<open>'t'\<close>: an unrecognized option, or \<open>-t\<close> without its argument),
  the program calls \<open>usage()\<close> and ends with exit code 1. A thread count out of range is
  not such an error: when \<open>getopt\<close> reports no option error and the hardware concurrency is
  at most \<open>2^31 - rows\<close>, the program completes with exit code 0, whatever values
  \<open>-t\<close> was given.
\<close>

theorem exit_codes:
  "(Opt_other \<in> set opts \<longrightarrow>
      main maxThreads opts work sched = Some (Inr Usage_exit) \<and> exit_code Usage_exit = 1) \<and>
   (Opt_other \<notin> set opts \<and> unat maxThreads + rows \<le> 2 ^ 31 \<longrightarrow>
      (\<exists>total_work gross_sum.
         main maxThreads opts work sched = Some (Inr (Completed total_work gross_sum)) \<and>
         exit_code (Completed total_work gross_sum) = 0))"
proof (rule conjI; rule impI)
  assume "Opt_other \<in> set opts"
  then show "main maxThreads opts work sched = Some (Inr Usage_exit) \<and> exit_code Usage_exit = 1"
    by (simp add: main_usage)
next
  assume a: "Opt_other \<notin> set opts \<and> unat maxThreads + rows \<le> 2 ^ 31"
  then obtain dFlag limiter where g: "getopt_loop maxThreads opts False 2 = Some (dFlag, limiter)"
    using getopt_loop_some[of opts maxThreads False 2] by blast
  have "limiter \<le> max 2 maxThreads" using g by (rule getopt_loop_bound) simp
  then have "unat limiter \<le> max 2 (unat maxThreads)"
    unfolding word_le_nat_alt unat_max_word by simp
  moreover have "2 + rows \<le> 2 ^ 31" by (simp add: rows_def)
  ultimately have "unat limiter + rows \<le> 2 ^ 31" using a by (simp add: max_def split: if_splits)
  then obtain total_work gross_sum where
    "main maxThreads opts work sched = Some (Inr (Completed total_work gross_sum))"
    using main_completes[OF g] by blast
  then show "\<exists>total_work gross_sum.
         main maxThreads opts work sched = Some (Inr (Completed total_work gross_sum)) \<and>
         exit_code (Completed total_work gross_sum) = 0"
    by simp
qed

theorem exit_codes_witness:
  "Opt_other \<in> set [Opt_d, Opt_other] \<and>
   main 8 [Opt_d, Opt_other] (\<lambda>r c. 1) (\<lambda>k. k) = Some (Inr Usage_exit) \<and>
   Opt_other \<notin> set [Opt_t 100] \<and> unat (8 :: 32 word) + rows \<le> 2 ^ 31 \<and>
   (\<exists>total_work gross_sum.
      main 8 [Opt_t 100] (\<lambda>r c. 1) (\<lambda>k. k) = Some (Inr (Completed total_work gross_sum)))"
proof -
  have h1: "Opt_other \<in> set [Opt_d, Opt_other]" by simp
  have h2: "Opt_other \<notin> set [Opt_t 100]" "unat (8 :: 32 word) + rows \<le> 2 ^ 31"
    by (simp_all add: rows_def)
  have c1: "main 8 [Opt_d, Opt_other] (\<lambda>r c. 1) (\<lambda>k. k) = Some (Inr Usage_exit)"
    using exit_codes[of "[Opt_d, Opt_other]" 8 "\<lambda>r c. 1" "\<lambda>k. k"] h1 by blast
  have c2: "\<exists>total_work gross_sum.
      main 8 [Opt_t 100] (\<lambda>r c. 1) (\<lambda>k. k) = Some (Inr (Completed total_work gross_sum))"
    using exit_codes[of "[Opt_t 100]" 8 "\<lambda>r c. 1" "\<lambda>k. k"] h2 by blast
  show ?thesis by (intro conjI h1 h2 c1 c2)
qed

text \<open>
  A thread count out of range does not end the program with exit code 1: with \<open>-t 0\<close>
  and with \<open>-t 100\<close> on a machine with 8 hardware threads the program completes with
  exit code 0.
\<close>

theorem exit_codes_counterexample:
  "(0 :: 32 word) < 2 \<and> (100 :: 32 word) > 8 \<and>
   main 8 [Opt_t 0] (\<lambda>r c. 0) (\<lambda>k. k) = Some (Inr (Completed 1000 0)) \<and>
   main 8 [Opt_t 100] (\<lambda>r c. 0) (\<lambda>k. k) = Some (Inr (Completed 1000 0)) \<and>
   exit_code (Completed 1000 0) = 0"
proof -
  have g: "getopt_loop 8 [Opt_t 0] False 2 = Some (False, 2)"
    "getopt_loop 8 [Opt_t 100] False 2 = Some (False, 8)" by simp_all
  have m: "matrix_total (\<lambda>r c. 0) = 0" by (simp add: matrix_total_def)
  have r: "(of_nat rows :: 32 word) = 1000" by (simp add: rows_def)
  have a: "main 8 [Opt_t 0] (\<lambda>r c. 0) (\<lambda>k. k) = Some (Inr (Completed 1000 0))"
    using main_totals[OF g(1), of "\<lambda>r c. 0" "\<lambda>k. k"] unfolding m r by (simp add: rows_def)
  have b: "main 8 [Opt_t 100] (\<lambda>r c. 0) (\<lambda>k. k) = Some (Inr (Completed 1000 0))"
    using main_totals[OF g(2), of "\<lambda>r c. 0" "\<lambda>k. k"] unfolding m r by (simp add: rows_def)
  show ?thesis using a b by simp
qed

lemma claims_as_rows:
  "map (\<lambda>x. nat (sint x)) (map (of_nat :: nat \<Rightarrow> 32 word) (rev [0..<rows])) = rev [0..<rows]"
proof -
  have "nat (sint (of_nat r :: 32 word)) = r" if "r \<in> set (rev [0..<rows])" for r
  proof -
    have "r < 2 ^ 31" using that rows_bound(1) by simp
    then show ?thesis by (simp add: sint32_of_nat)
  qed
  then have "map ((\<lambda>x. nat (sint x)) \<circ> (of_nat :: nat \<Rightarrow> 32 word)) (rev [0..<rows]) = map id (rev [0..<rows])"
    by (intro map_cong) auto
  then show ?thesis by simp
qed

text \<open>
  C9. The row read is \<open>count_copy\<close>, the counter after the decrement. A successful claim
  at a counter in \<open>1..rows\<close> gives a \<open>count_copy\<close> in \<open>0..rows-1\<close>; under every scheduler
  the dynamic run ends without an access out of bounds, its successful claims are exactly
  \<open>rows - 1\<close> down to \<open>0\<close>, and the rows the workers have read are the claimed values.
\<close>

theorem claimed_rows_in_bounds:
  "(0 < sint c \<and> sint c \<le> int rows \<longrightarrow>
      claim c = (c - 1, False, c - 1) \<and> 0 \<le> sint (c - 1) \<and> sint (c - 1) \<le> int rows - 1) \<and>
   (1 \<le> N \<and> N \<le> 2 ^ 31 \<longrightarrow>
      (\<exists>s'. run_dynamic work N sched = Some (Inr s') \<and>
            claims s' = map of_nat (rev [0..<rows]) \<and>
            (\<forall>x\<in>set (claims s'). 0 \<le> sint x \<and> sint x \<le> int rows - 1) \<and>
            (\<Sum>t<N. mset (seen s' t)) = mset (map (\<lambda>x. nat (sint x)) (claims s'))))"
proof (rule conjI; rule impI)
  assume a: "0 < sint c \<and> sint c \<le> int rows"
  then have "sint (c - 1) = sint c - 1" by (simp add: sint32_dec)
  then show "claim c = (c - 1, False, c - 1) \<and> 0 \<le> sint (c - 1) \<and> sint (c - 1) \<le> int rows - 1"
    using a by (simp add: claim_eq)
next
  assume N: "1 \<le> N \<and> N \<le> 2 ^ 31"
  then obtain s' where s': "run_dynamic work N sched = Some (Inr s')" "dyn_inv work N s'" "dyn_runnable s' = []"
    using run_dynamic_total[of N work sched] by blast
  have cl: "claims s' = map of_nat (rev [0..<rows])" using dyn_final(3)[OF s'(2,3)] N by blast
  have "0 \<le> sint x \<and> sint x \<le> int rows - 1" if mem: "x \<in> set (claims s')" for x
  proof -
    have "x \<in> of_nat ` {0..<rows}" using mem unfolding cl by simp
    then obtain r where r: "x = of_nat r" "r < rows" by auto
    then have "r < 2 ^ 31" using rows_bound(1) by simp
    then have "sint x = int r" unfolding r(1) by (rule sint32_of_nat)
    then show ?thesis using r(2) by simp
  qed
  moreover have "(\<Sum>t<N. mset (seen s' t)) = mset (map (\<lambda>x. nat (sint x)) (claims s'))"
    unfolding cl claims_as_rows using dyn_final(2)[OF s'(2,3)] N by simp
  ultimately show "\<exists>s'. run_dynamic work N sched = Some (Inr s') \<and>
            claims s' = map of_nat (rev [0..<rows]) \<and>
            (\<forall>x\<in>set (claims s'). 0 \<le> sint x \<and> sint x \<le> int rows - 1) \<and>
            (\<Sum>t<N. mset (seen s' t)) = mset (map (\<lambda>x. nat (sint x)) (claims s'))"
    using s'(1) cl by blast
qed

theorem claimed_rows_in_bounds_witness:
  "0 < sint (1000 :: 32 word) \<and> sint (1000 :: 32 word) \<le> int rows \<and>
   claim 1000 = (999, False, 999) \<and>
   (1 :: nat) \<le> 2 \<and> (2 :: nat) \<le> 2 ^ 31 \<and>
   (\<exists>s'. run_dynamic (\<lambda>r c. 1) 2 (\<lambda>k. k) = Some (Inr s') \<and>
         claims s' = map of_nat (rev [0..<rows]))"
proof -
  have h1: "0 < sint (1000 :: 32 word)" "sint (1000 :: 32 word) \<le> int rows" by (simp_all add: rows_def)
  have h2: "(1 :: nat) \<le> 2" "(2 :: nat) \<le> 2 ^ 31" by simp_all
  note T = claimed_rows_in_bounds[of 1000 2 "\<lambda>r c. 1" "\<lambda>k. k"]
  have c1: "claim 1000 = (999, False, 999)" using T h1 by simp
  have c2: "\<exists>s'. run_dynamic (\<lambda>r c. 1) 2 (\<lambda>k. k) = Some (Inr s') \<and>
         claims s' = map of_nat (rev [0..<rows])" using T h2 by blast
  show ?thesis by (intro conjI h1 h2 c1 c2)
qed

end
